theory Spec2Isabelle
  imports Main "HOL-Library.Word"
begin

section \<open>The archiver registry: stake ledger, reward accumulator, challenges\<close>

text \<open>
  A shallow embedding of \<^verbatim>\<open>contracts/ArchiverRegistry.sol\<close>. Every external function of
  the contract is a HOL function from the storage before the call (and the call's
  \<^verbatim>\<open>msg.sender\<close>, \<^verbatim>\<open>msg.value\<close> and \<^verbatim>\<open>block.timestamp\<close>) to either an error, which
  stands for a revert that leaves storage as it was, or the storage after the call together
  with the events emitted and the ether sent, in order.

  \<^item> \<^verbatim>\<open>uint256\<close> is \<open>nat\<close>; Solidity 0.8 checks every \<open>+\<close>, \<open>-\<close>, \<open>*\<close> and reverts with
    a panic when the result leaves \<open>0 .. 2^256 - 1\<close>, which the model writes out as \<open>Panic\<close>.
  \<^item> A \<^verbatim>\<open>mapping\<close> is a total function: an absent key reads as the zero value.
  \<^item> \<^verbatim>\<open>payable(x).call{value: v}("")\<close> followed by \<^verbatim>\<open>require(success, ...)\<close> is
    \<open>call_value\<close> when the recipient is an externally owned account, which accepts the
    ether and makes no call: it fails when the contract holds less than \<open>v\<close>, and the
    reentrancy guard never fires. A recipient that rejects the ether or calls the contract
    again is the subject of the functions named \<open>_cb\<close>, which take the recipient's
    reaction as a parameter and check the guard.
  \<^item> \<^verbatim>\<open>onlyOwner\<close> compares the sender with the stored owner.
\<close>

type_synonym address = "160 word"
type_synonym bytes32 = "256 word"

definition MAX_UINT256 :: nat where
  "MAX_UINT256 = 2 ^ 256 - 1"

definition fits :: "nat \<Rightarrow> bool" where
  "fits n = (n \<le> MAX_UINT256)"

definition MIN_STAKE :: nat where
  "MIN_STAKE = 100000000000000000"

definition CHALLENGE_PERIOD :: nat where
  "CHALLENGE_PERIOD = 86400"

definition SLASH_PERCENT :: nat where
  "SLASH_PERCENT = 10"

definition CHALLENGE_BOND :: nat where
  "CHALLENGE_BOND = 10000000000000000"

text \<open>The literal \<^verbatim>\<open>1e18\<close> by which the accumulator is scaled.\<close>

definition E18 :: nat where
  "E18 = 1000000000000000000"

record Archiver =
  stake :: nat
  registeredAt :: nat
  lastClaimAt :: nat
  blobCount :: nat
  successfulChallenges :: nat
  failedChallenges :: nat
  active :: bool
  endpoint :: string

record Challenge =
  challenger :: address
  archiver :: address
  blobHash :: bytes32
  deadline :: nat
  resolved :: bool
  archiverWon :: bool

record registry =
  archivers :: "address \<Rightarrow> Archiver"
  activeArchivers :: "address list"
  archiverIndex :: "address \<Rightarrow> nat"
  challenges :: "nat \<Rightarrow> Challenge"
  nextChallengeId :: nat
  totalStake :: nat
  rewardPool :: nat
  accRewardPerStake :: nat
  rewardDebt :: "address \<Rightarrow> nat"
  feeRecipient :: address
  blobArchivers :: "bytes32 \<Rightarrow> address list"
  owner :: address
  balance :: nat

datatype error =
    InsufficientStake
  | ArchiverNotActive
  | ArchiverAlreadyRegistered
  | NotAnArchiver
  | ChallengeNotFound
  | ChallengeAlreadyResolved
  | ChallengePeriodNotExpired
  | InvalidBond
  | WithdrawalExceedsStake
  | StakeBelowMinimum
  | TransferFailed
  | OwnableUnauthorizedAccount
  | ReentrancyGuardReentrantCall
  | Panic

text \<open>What a call leaves behind besides storage: the events, and the ether it sent.\<close>

datatype effect =
    ArchiverRegistered address nat string nat
  | StakeAdded address nat nat
  | StakeWithdrawn address nat nat
  | ArchiverDeactivated address nat
  | BlobCommitted address bytes32 nat
  | ChallengeCreated nat address address bytes32
  | ChallengeResolved nat bool nat
  | RewardsClaimed address nat
  | RewardPoolFunded address nat
  | Transfer address nat

definition zero_archiver :: Archiver where
  "zero_archiver = \<lparr>stake = 0, registeredAt = 0, lastClaimAt = 0, blobCount = 0,
     successfulChallenges = 0, failedChallenges = 0, active = False, endpoint = []\<rparr>"

definition zero_challenge :: Challenge where
  "zero_challenge = \<lparr>challenger = 0, archiver = 0, blobHash = 0, deadline = 0,
     resolved = False, archiverWon = False\<rparr>"

text \<open>Storage after the constructor, run by \<open>deployer\<close> with \<open>_feeRecipient = fr\<close>.\<close>

definition init :: "address \<Rightarrow> address \<Rightarrow> registry" where
  "init deployer fr = \<lparr>archivers = (\<lambda>_. zero_archiver), activeArchivers = [],
     archiverIndex = (\<lambda>_. 0), challenges = (\<lambda>_. zero_challenge), nextChallengeId = 0,
     totalStake = 0, rewardPool = 0, accRewardPerStake = 0, rewardDebt = (\<lambda>_. 0),
     feeRecipient = fr, blobArchivers = (\<lambda>_. []), owner = deployer, balance = 0\<rparr>"

definition call_value :: "registry \<Rightarrow> address \<Rightarrow> nat \<Rightarrow> error + registry" where
  "call_value s recipient amount =
     (if balance s < amount then Inl TransferFailed
      else Inr (s\<lparr>balance := balance s - amount\<rparr>))"

subsection \<open>Internal functions\<close>

definition claimRewards_internal ::
  "registry \<Rightarrow> address \<Rightarrow> nat \<Rightarrow> error + registry \<times> effect list" where
  "claimRewards_internal s archiverAddr now =
     (if stake (archivers s archiverAddr) = 0 then Inr (s, [])
      else if \<not> fits (stake (archivers s archiverAddr) * accRewardPerStake s) then Inl Panic
      else
        let accumulated = (stake (archivers s archiverAddr) * accRewardPerStake s) div E18 in
        if accumulated < rewardDebt s archiverAddr then Inl Panic
        else
          let pending = accumulated - rewardDebt s archiverAddr in
          if pending > 0 then
            (case call_value
                    (s\<lparr>rewardDebt := (rewardDebt s)(archiverAddr := accumulated),
                       archivers := (archivers s)
                         (archiverAddr := (archivers s archiverAddr)\<lparr>lastClaimAt := now\<rparr>)\<rparr>)
                    archiverAddr pending of
               Inl e \<Rightarrow> Inl e
             | Inr s' \<Rightarrow> Inr (s', [Transfer archiverAddr pending,
                                   RewardsClaimed archiverAddr pending]))
          else Inr (s, []))"

definition deactivateArchiver_internal ::
  "registry \<Rightarrow> address \<Rightarrow> nat \<Rightarrow> error + registry \<times> effect list" where
  "deactivateArchiver_internal s archiverAddr now =
     (let s1 = s\<lparr>archivers := (archivers s)
                  (archiverAddr := (archivers s archiverAddr)\<lparr>active := False\<rparr>)\<rparr>;
          index = archiverIndex s1 archiverAddr
      in
        if index > 0 then
          (let lastIndex = length (activeArchivers s1);
               s2 = (if index < lastIndex then
                       (let lastArchiver = activeArchivers s1 ! (lastIndex - 1) in
                        s1\<lparr>activeArchivers := (activeArchivers s1)[index - 1 := lastArchiver],
                           archiverIndex := (archiverIndex s1)(lastArchiver := index)\<rparr>)
                     else s1)
           in
             if activeArchivers s2 = [] then Inl Panic
             else Inr (s2\<lparr>activeArchivers := butlast (activeArchivers s2),
                          archiverIndex := (archiverIndex s2)(archiverAddr := 0)\<rparr>,
                       [ArchiverDeactivated archiverAddr now]))
        else Inr (s1, [ArchiverDeactivated archiverAddr now]))"

subsection \<open>Registration and stake\<close>

definition register ::
  "registry \<Rightarrow> address \<Rightarrow> nat \<Rightarrow> string \<Rightarrow> nat \<Rightarrow> error + registry \<times> effect list" where
  "register s sender val ep now =
     (if val < MIN_STAKE then Inl InsufficientStake
      else if registeredAt (archivers s sender) \<noteq> 0 then Inl ArchiverAlreadyRegistered
      else if \<not> fits (totalStake s + val) then Inl Panic
      else if \<not> fits (val * accRewardPerStake s) then Inl Panic
      else Inr (s\<lparr>balance := balance s + val,
                   archivers := (archivers s)
                     (sender := \<lparr>stake = val, registeredAt = now, lastClaimAt = now,
                                 blobCount = 0, successfulChallenges = 0, failedChallenges = 0,
                                 active = True, endpoint = ep\<rparr>),
                   activeArchivers := activeArchivers s @ [sender],
                   archiverIndex := (archiverIndex s)
                     (sender := length (activeArchivers s @ [sender])),
                   totalStake := totalStake s + val,
                   rewardDebt := (rewardDebt s)
                     (sender := (val * accRewardPerStake s) div E18)\<rparr>,
                [ArchiverRegistered sender val ep now]))"

definition addStake ::
  "registry \<Rightarrow> address \<Rightarrow> nat \<Rightarrow> nat \<Rightarrow> error + registry \<times> effect list" where
  "addStake s sender val now =
     (if registeredAt (archivers s sender) = 0 then Inl NotAnArchiver
      else
        case claimRewards_internal (s\<lparr>balance := balance s + val\<rparr>) sender now of
          Inl e \<Rightarrow> Inl e
        | Inr (s1, evs) \<Rightarrow>
            if \<not> fits (stake (archivers s1 sender) + val) then Inl Panic
            else if \<not> fits (totalStake s1 + val) then Inl Panic
            else if \<not> fits ((stake (archivers s1 sender) + val) * accRewardPerStake s1)
              then Inl Panic
            else Inr (s1\<lparr>archivers := (archivers s1)
                           (sender := (archivers s1 sender)
                              \<lparr>stake := stake (archivers s1 sender) + val\<rparr>),
                         totalStake := totalStake s1 + val,
                         rewardDebt := (rewardDebt s1)
                           (sender := ((stake (archivers s1 sender) + val)
                                        * accRewardPerStake s1) div E18)\<rparr>,
                      evs @ [StakeAdded sender val (stake (archivers s1 sender) + val)]))"

definition withdrawStake ::
  "registry \<Rightarrow> address \<Rightarrow> nat \<Rightarrow> nat \<Rightarrow> error + registry \<times> effect list" where
  "withdrawStake s sender amount now =
     (if registeredAt (archivers s sender) = 0 then Inl NotAnArchiver
      else if amount > stake (archivers s sender) then Inl WithdrawalExceedsStake
      else
        let newStake = stake (archivers s sender) - amount in
        if newStake > 0 \<and> newStake < MIN_STAKE then Inl StakeBelowMinimum
        else
          case claimRewards_internal s sender now of
            Inl e \<Rightarrow> Inl e
          | Inr (s1, evs) \<Rightarrow>
              if totalStake s1 < amount then Inl Panic
              else if \<not> fits (newStake * accRewardPerStake s1) then Inl Panic
              else
                case (if newStake = 0 then
                        deactivateArchiver_internal
                          (s1\<lparr>archivers := (archivers s1)
                                (sender := (archivers s1 sender)\<lparr>stake := newStake\<rparr>),
                              totalStake := totalStake s1 - amount,
                              rewardDebt := (rewardDebt s1)
                                (sender := (newStake * accRewardPerStake s1) div E18)\<rparr>)
                          sender now
                      else
                        Inr (s1\<lparr>archivers := (archivers s1)
                                  (sender := (archivers s1 sender)\<lparr>stake := newStake\<rparr>),
                                totalStake := totalStake s1 - amount,
                                rewardDebt := (rewardDebt s1)
                                  (sender := (newStake * accRewardPerStake s1) div E18)\<rparr>,
                             [])) of
                  Inl e \<Rightarrow> Inl e
                | Inr (s2, evs2) \<Rightarrow>
                    (case call_value s2 sender amount of
                       Inl e \<Rightarrow> Inl e
                     | Inr s3 \<Rightarrow>
                         Inr (s3, evs @ evs2 @ [Transfer sender amount,
                                                 StakeWithdrawn sender amount newStake])))"

definition deactivate ::
  "registry \<Rightarrow> address \<Rightarrow> nat \<Rightarrow> error + registry \<times> effect list" where
  "deactivate s sender now =
     (if \<not> active (archivers s sender) then Inl ArchiverNotActive
      else deactivateArchiver_internal s sender now)"

subsection \<open>Blob commitments\<close>

definition commitToBlob ::
  "registry \<Rightarrow> address \<Rightarrow> bytes32 \<Rightarrow> nat \<Rightarrow> error + registry \<times> effect list" where
  "commitToBlob s sender h now =
     (if \<not> active (archivers s sender) then Inl ArchiverNotActive
      else if \<not> fits (blobCount (archivers s sender) + 1) then Inl Panic
      else Inr (s\<lparr>blobArchivers := (blobArchivers s)(h := blobArchivers s h @ [sender]),
                   archivers := (archivers s)
                     (sender := (archivers s sender)
                        \<lparr>blobCount := blobCount (archivers s sender) + 1\<rparr>)\<rparr>,
                [BlobCommitted sender h now]))"

text \<open>The body of the \<^verbatim>\<open>for\<close> loop of \<^verbatim>\<open>batchCommitToBlobs\<close>, one hash per round.\<close>

fun batch_loop ::
  "registry \<Rightarrow> address \<Rightarrow> bytes32 list \<Rightarrow> nat \<Rightarrow> error + registry \<times> effect list" where
  "batch_loop s sender [] now = Inr (s, [])"
| "batch_loop s sender (h # hs) now =
     (if \<not> fits (blobCount (archivers s sender) + 1) then Inl Panic
      else
        case batch_loop
               (s\<lparr>blobArchivers := (blobArchivers s)(h := blobArchivers s h @ [sender]),
                  archivers := (archivers s)
                    (sender := (archivers s sender)
                       \<lparr>blobCount := blobCount (archivers s sender) + 1\<rparr>)\<rparr>)
               sender hs now of
          Inl e \<Rightarrow> Inl e
        | Inr (s', evs) \<Rightarrow> Inr (s', BlobCommitted sender h now # evs))"

definition batchCommitToBlobs ::
  "registry \<Rightarrow> address \<Rightarrow> bytes32 list \<Rightarrow> nat \<Rightarrow> error + registry \<times> effect list" where
  "batchCommitToBlobs s sender hs now =
     (if \<not> active (archivers s sender) then Inl ArchiverNotActive
      else batch_loop s sender hs now)"

subsection \<open>Challenges\<close>

definition createChallenge ::
  "registry \<Rightarrow> address \<Rightarrow> nat \<Rightarrow> address \<Rightarrow> bytes32 \<Rightarrow> nat
     \<Rightarrow> error + nat \<times> registry \<times> effect list" where
  "createChallenge s sender val archiverAddr h now =
     (if val \<noteq> CHALLENGE_BOND then Inl InvalidBond
      else if \<not> active (archivers s archiverAddr) then Inl ArchiverNotActive
      else if \<not> fits (nextChallengeId s + 1) then Inl Panic
      else if \<not> fits (now + CHALLENGE_PERIOD) then Inl Panic
      else
        let challengeId = nextChallengeId s in
        Inr (challengeId,
             s\<lparr>balance := balance s + val,
               nextChallengeId := nextChallengeId s + 1,
               challenges := (challenges s)
                 (challengeId := \<lparr>challenger = sender, archiver = archiverAddr, blobHash = h,
                                  deadline = now + CHALLENGE_PERIOD, resolved = False,
                                  archiverWon = False\<rparr>)\<rparr>,
             [ChallengeCreated challengeId sender archiverAddr h]))"

definition resolveChallenge ::
  "registry \<Rightarrow> address \<Rightarrow> nat \<Rightarrow> bool \<Rightarrow> nat \<Rightarrow> error + registry \<times> effect list" where
  "resolveChallenge s sender challengeId archiverHasData now =
     (if sender \<noteq> owner s then Inl OwnableUnauthorizedAccount
      else if deadline (challenges s challengeId) = 0 then Inl ChallengeNotFound
      else if resolved (challenges s challengeId) then Inl ChallengeAlreadyResolved
      else
        let s1 = s\<lparr>challenges := (challenges s)
                     (challengeId := (challenges s challengeId)
                        \<lparr>resolved := True, archiverWon := archiverHasData\<rparr>)\<rparr>;
            a = archiver (challenges s1 challengeId)
        in
          if archiverHasData then
            (if \<not> fits (successfulChallenges (archivers s1 a) + 1) then Inl Panic
             else
               case call_value
                      (s1\<lparr>archivers := (archivers s1)
                            (a := (archivers s1 a)
                               \<lparr>successfulChallenges :=
                                  successfulChallenges (archivers s1 a) + 1\<rparr>)\<rparr>)
                      a CHALLENGE_BOND of
                 Inl e \<Rightarrow> Inl e
               | Inr s2 \<Rightarrow> Inr (s2, [Transfer a CHALLENGE_BOND,
                                     ChallengeResolved challengeId archiverHasData 0]))
          else
            (if \<not> fits (failedChallenges (archivers s1 a) + 1) then Inl Panic
             else if \<not> fits (stake (archivers s1 a) * SLASH_PERCENT) then Inl Panic
             else
               let slashAmount = (stake (archivers s1 a) * SLASH_PERCENT) div 100 in
               if stake (archivers s1 a) < slashAmount then Inl Panic
               else if totalStake s1 < slashAmount then Inl Panic
               else if \<not> fits (slashAmount + CHALLENGE_BOND) then Inl Panic
               else
                 let challengerReward = slashAmount + CHALLENGE_BOND in
                 case call_value
                        (s1\<lparr>archivers := (archivers s1)
                              (a := (archivers s1 a)
                                 \<lparr>failedChallenges := failedChallenges (archivers s1 a) + 1,
                                  stake := stake (archivers s1 a) - slashAmount\<rparr>),
                            totalStake := totalStake s1 - slashAmount\<rparr>)
                        (challenger (challenges s1 challengeId)) challengerReward of
                   Inl e \<Rightarrow> Inl e
                 | Inr s2 \<Rightarrow>
                     (case (if stake (archivers s2 a) < MIN_STAKE
                            then deactivateArchiver_internal s2 a now
                            else Inr (s2, [])) of
                        Inl e \<Rightarrow> Inl e
                      | Inr (s3, evs) \<Rightarrow>
                          Inr (s3, Transfer (challenger (challenges s1 challengeId))
                                     challengerReward
                                   # evs
                                   @ [ChallengeResolved challengeId archiverHasData
                                        slashAmount]))))"

definition resolveExpiredChallenge ::
  "registry \<Rightarrow> nat \<Rightarrow> nat \<Rightarrow> error + registry \<times> effect list" where
  "resolveExpiredChallenge s challengeId now =
     (if deadline (challenges s challengeId) = 0 then Inl ChallengeNotFound
      else if resolved (challenges s challengeId) then Inl ChallengeAlreadyResolved
      else if now < deadline (challenges s challengeId) then Inl ChallengePeriodNotExpired
      else
        let s1 = s\<lparr>challenges := (challenges s)
                     (challengeId := (challenges s challengeId)
                        \<lparr>resolved := True, archiverWon := False\<rparr>)\<rparr>;
            a = archiver (challenges s1 challengeId)
        in
          if \<not> fits (failedChallenges (archivers s1 a) + 1) then Inl Panic
          else if \<not> fits (stake (archivers s1 a) * SLASH_PERCENT) then Inl Panic
          else
            let slashAmount = (stake (archivers s1 a) * SLASH_PERCENT) div 100 in
            if stake (archivers s1 a) < slashAmount then Inl Panic
            else if totalStake s1 < slashAmount then Inl Panic
            else if \<not> fits (slashAmount + CHALLENGE_BOND) then Inl Panic
            else
              let challengerReward = slashAmount + CHALLENGE_BOND in
              case call_value
                     (s1\<lparr>archivers := (archivers s1)
                           (a := (archivers s1 a)
                              \<lparr>failedChallenges := failedChallenges (archivers s1 a) + 1,
                               stake := stake (archivers s1 a) - slashAmount\<rparr>),
                         totalStake := totalStake s1 - slashAmount\<rparr>)
                     (challenger (challenges s1 challengeId)) challengerReward of
                Inl e \<Rightarrow> Inl e
              | Inr s2 \<Rightarrow>
                  (case (if stake (archivers s2 a) < MIN_STAKE
                         then deactivateArchiver_internal s2 a now
                         else Inr (s2, [])) of
                     Inl e \<Rightarrow> Inl e
                   | Inr (s3, evs) \<Rightarrow>
                       Inr (s3, Transfer (challenger (challenges s1 challengeId))
                                  challengerReward
                                # evs
                                @ [ChallengeResolved challengeId False slashAmount])))"

subsection \<open>Rewards\<close>

definition fundRewardPool ::
  "registry \<Rightarrow> address \<Rightarrow> nat \<Rightarrow> error + registry \<times> effect list" where
  "fundRewardPool s sender val =
     (case (if totalStake s > 0 then
              (if \<not> fits (val * E18) then Inl Panic
               else if \<not> fits (accRewardPerStake s + (val * E18) div totalStake s)
                 then Inl Panic
               else Inr (s\<lparr>balance := balance s + val,
                            accRewardPerStake :=
                              accRewardPerStake s + (val * E18) div totalStake s\<rparr>))
            else Inr (s\<lparr>balance := balance s + val\<rparr>)) of
        Inl e \<Rightarrow> Inl e
      | Inr s1 \<Rightarrow>
          if \<not> fits (rewardPool s1 + val) then Inl Panic
          else Inr (s1\<lparr>rewardPool := rewardPool s1 + val\<rparr>, [RewardPoolFunded sender val]))"

definition claimRewards ::
  "registry \<Rightarrow> address \<Rightarrow> nat \<Rightarrow> error + registry \<times> effect list" where
  "claimRewards s sender now = claimRewards_internal s sender now"

definition pendingRewards :: "registry \<Rightarrow> address \<Rightarrow> error + nat" where
  "pendingRewards s archiverAddr =
     (if stake (archivers s archiverAddr) = 0 then Inr 0
      else if \<not> fits (stake (archivers s archiverAddr) * accRewardPerStake s) then Inl Panic
      else
        let accumulated = (stake (archivers s archiverAddr) * accRewardPerStake s) div E18 in
        if accumulated < rewardDebt s archiverAddr then Inl Panic
        else Inr (accumulated - rewardDebt s archiverAddr))"

text \<open>The \<^verbatim>\<open>receive()\<close> function: a plain ether transfer to the contract.\<close>

definition receive ::
  "registry \<Rightarrow> address \<Rightarrow> nat \<Rightarrow> error + registry \<times> effect list" where
  "receive s sender val =
     (case (if totalStake s > 0 then
              (if \<not> fits (val * E18) then Inl Panic
               else if \<not> fits (accRewardPerStake s + (val * E18) div totalStake s)
                 then Inl Panic
               else Inr (s\<lparr>balance := balance s + val,
                            accRewardPerStake :=
                              accRewardPerStake s + (val * E18) div totalStake s\<rparr>))
            else Inr (s\<lparr>balance := balance s + val\<rparr>)) of
        Inl e \<Rightarrow> Inl e
      | Inr s1 \<Rightarrow>
          if \<not> fits (rewardPool s1 + val) then Inl Panic
          else Inr (s1\<lparr>rewardPool := rewardPool s1 + val\<rparr>, [RewardPoolFunded sender val]))"

subsection \<open>Transactions\<close>

text \<open>
  One constructor per external function that writes storage, carrying \<^verbatim>\<open>msg.sender\<close>
  first, then \<^verbatim>\<open>msg.value\<close> for the payable ones, then the arguments.
\<close>

datatype call =
    Register address nat string
  | AddStake address nat
  | WithdrawStake address nat
  | Deactivate address
  | CommitToBlob address bytes32
  | BatchCommitToBlobs address "bytes32 list"
  | CreateChallenge address nat address bytes32
  | ResolveChallenge address nat bool
  | ResolveExpiredChallenge address nat
  | FundRewardPool address nat
  | ClaimRewards address
  | Receive address nat

fun exec :: "registry \<Rightarrow> nat \<Rightarrow> call \<Rightarrow> error + registry \<times> effect list" where
  "exec s now (Register sender val ep) = register s sender val ep now"
| "exec s now (AddStake sender val) = addStake s sender val now"
| "exec s now (WithdrawStake sender amount) = withdrawStake s sender amount now"
| "exec s now (Deactivate sender) = deactivate s sender now"
| "exec s now (CommitToBlob sender h) = commitToBlob s sender h now"
| "exec s now (BatchCommitToBlobs sender hs) = batchCommitToBlobs s sender hs now"
| "exec s now (CreateChallenge sender val a h) =
     (case createChallenge s sender val a h now of
        Inl e \<Rightarrow> Inl e
      | Inr (cid, s', evs) \<Rightarrow> Inr (s', evs))"
| "exec s now (ResolveChallenge sender cid hasData) = resolveChallenge s sender cid hasData now"
| "exec s now (ResolveExpiredChallenge sender cid) = resolveExpiredChallenge s cid now"
| "exec s now (FundRewardPool sender val) = fundRewardPool s sender val"
| "exec s now (ClaimRewards sender) = claimRewards s sender now"
| "exec s now (Receive sender val) = receive s sender val"

text \<open>
  A history is a list of transactions, each with the timestamp of its block. A
  transaction that reverts leaves storage as it was and leaves no event.
\<close>

fun run :: "registry \<Rightarrow> (nat \<times> call) list \<Rightarrow> registry \<times> effect list" where
  "run s [] = (s, [])"
| "run s ((now, c) # cs) =
     (case exec s now c of
        Inl e \<Rightarrow> run s cs
      | Inr (s', evs) \<Rightarrow> (case run s' cs of (s'', evs') \<Rightarrow> (s'', evs @ evs')))"

subsection \<open>Quantities read off the log\<close>

fun paid_of :: "effect \<Rightarrow> nat" where
  "paid_of (RewardsClaimed a n) = n"
| "paid_of _ = 0"

fun funded_of :: "effect \<Rightarrow> nat" where
  "funded_of (RewardPoolFunded a n) = n"
| "funded_of _ = 0"

fun stake_set_of :: "effect \<Rightarrow> nat" where
  "stake_set_of (ArchiverRegistered a v ep t) = 1"
| "stake_set_of (StakeAdded a v n) = 1"
| "stake_set_of (StakeWithdrawn a v n) = 1"
| "stake_set_of _ = 0"

definition total_paid :: "effect list \<Rightarrow> nat" where
  "total_paid evs = sum_list (map paid_of evs)"

definition total_funded :: "effect list \<Rightarrow> nat" where
  "total_funded evs = sum_list (map funded_of evs)"

definition stake_settings :: "effect list \<Rightarrow> nat" where
  "stake_settings evs = sum_list (map stake_set_of evs)"

subsection \<open>Recipients that call back\<close>

text \<open>
  \<^verbatim>\<open>payable(x).call{value: v}("")\<close> hands control to the code at \<open>x\<close>, which may reject
  the ether or call the contract again before it returns. The functions above take the
  recipient to accept and to make no call. The functions of this subsection are the same
  bodies with the recipient's reaction as a parameter: a \<open>handler\<close> is given whether
  the guard of \<^verbatim>\<open>ReentrancyGuard\<close> is held, the recipient and the storage at the time of
  the transfer, and returns \<open>None\<close> when the recipient reverts, or the storage it leaves
  and what its calls emitted. \<^verbatim>\<open>nonReentrant\<close> reverts when the guard is held and holds
  it while the body runs; \<^verbatim>\<open>register\<close>, \<^verbatim>\<open>addStake\<close>, \<^verbatim>\<open>withdrawStake\<close> and
  \<^verbatim>\<open>claimRewards\<close> carry it, the other functions do not.
\<close>

type_synonym handler = "bool \<Rightarrow> address \<Rightarrow> registry \<Rightarrow> (registry \<times> effect list) option"

definition call_value_cb ::
  "handler \<Rightarrow> bool \<Rightarrow> registry \<Rightarrow> address \<Rightarrow> nat \<Rightarrow> error + registry \<times> effect list" where
  "call_value_cb k entered s recipient amount =
     (if balance s < amount then Inl TransferFailed
      else
        case k entered recipient (s\<lparr>balance := balance s - amount\<rparr>) of
          None \<Rightarrow> Inl TransferFailed
        | Some (s', evs) \<Rightarrow> Inr (s', evs))"

definition claimRewards_internal_cb ::
  "handler \<Rightarrow> bool \<Rightarrow> registry \<Rightarrow> address \<Rightarrow> nat \<Rightarrow> error + registry \<times> effect list" where
  "claimRewards_internal_cb k entered s archiverAddr now =
     (if stake (archivers s archiverAddr) = 0 then Inr (s, [])
      else if \<not> fits (stake (archivers s archiverAddr) * accRewardPerStake s) then Inl Panic
      else
        let accumulated = (stake (archivers s archiverAddr) * accRewardPerStake s) div E18 in
        if accumulated < rewardDebt s archiverAddr then Inl Panic
        else
          let pending = accumulated - rewardDebt s archiverAddr in
          if pending > 0 then
            (case call_value_cb k entered
                    (s\<lparr>rewardDebt := (rewardDebt s)(archiverAddr := accumulated),
                       archivers := (archivers s)
                         (archiverAddr := (archivers s archiverAddr)\<lparr>lastClaimAt := now\<rparr>)\<rparr>)
                    archiverAddr pending of
               Inl e \<Rightarrow> Inl e
             | Inr (s', evs) \<Rightarrow> Inr (s', Transfer archiverAddr pending # evs
                                          @ [RewardsClaimed archiverAddr pending]))
          else Inr (s, []))"

definition register_cb ::
  "bool \<Rightarrow> registry \<Rightarrow> address \<Rightarrow> nat \<Rightarrow> string \<Rightarrow> nat \<Rightarrow> error + registry \<times> effect list" where
  "register_cb entered s sender val ep now =
     (if entered then Inl ReentrancyGuardReentrantCall
      else register s sender val ep now)"

definition addStake_cb ::
  "handler \<Rightarrow> bool \<Rightarrow> registry \<Rightarrow> address \<Rightarrow> nat \<Rightarrow> nat \<Rightarrow> error + registry \<times> effect list" where
  "addStake_cb k entered s sender val now =
     (if entered then Inl ReentrancyGuardReentrantCall
      else if registeredAt (archivers s sender) = 0 then Inl NotAnArchiver
      else
        case claimRewards_internal_cb k True (s\<lparr>balance := balance s + val\<rparr>) sender now of
          Inl e \<Rightarrow> Inl e
        | Inr (s1, evs) \<Rightarrow>
            if \<not> fits (stake (archivers s1 sender) + val) then Inl Panic
            else if \<not> fits (totalStake s1 + val) then Inl Panic
            else if \<not> fits ((stake (archivers s1 sender) + val) * accRewardPerStake s1)
              then Inl Panic
            else Inr (s1\<lparr>archivers := (archivers s1)
                           (sender := (archivers s1 sender)
                              \<lparr>stake := stake (archivers s1 sender) + val\<rparr>),
                         totalStake := totalStake s1 + val,
                         rewardDebt := (rewardDebt s1)
                           (sender := ((stake (archivers s1 sender) + val)
                                        * accRewardPerStake s1) div E18)\<rparr>,
                      evs @ [StakeAdded sender val (stake (archivers s1 sender) + val)]))"

text \<open>
  \<^verbatim>\<open>withdrawStake\<close> computes \<open>newStake\<close> from the stake it reads on entry and writes it
  after \<^verbatim>\<open>_claimRewards\<close> has returned, whatever the stake has become in between.
\<close>

definition withdrawStake_cb ::
  "handler \<Rightarrow> bool \<Rightarrow> registry \<Rightarrow> address \<Rightarrow> nat \<Rightarrow> nat \<Rightarrow> error + registry \<times> effect list" where
  "withdrawStake_cb k entered s sender amount now =
     (if entered then Inl ReentrancyGuardReentrantCall
      else if registeredAt (archivers s sender) = 0 then Inl NotAnArchiver
      else if amount > stake (archivers s sender) then Inl WithdrawalExceedsStake
      else
        let newStake = stake (archivers s sender) - amount in
        if newStake > 0 \<and> newStake < MIN_STAKE then Inl StakeBelowMinimum
        else
          case claimRewards_internal_cb k True s sender now of
            Inl e \<Rightarrow> Inl e
          | Inr (s1, evs) \<Rightarrow>
              if totalStake s1 < amount then Inl Panic
              else if \<not> fits (newStake * accRewardPerStake s1) then Inl Panic
              else
                case (if newStake = 0 then
                        deactivateArchiver_internal
                          (s1\<lparr>archivers := (archivers s1)
                                (sender := (archivers s1 sender)\<lparr>stake := newStake\<rparr>),
                              totalStake := totalStake s1 - amount,
                              rewardDebt := (rewardDebt s1)
                                (sender := (newStake * accRewardPerStake s1) div E18)\<rparr>)
                          sender now
                      else
                        Inr (s1\<lparr>archivers := (archivers s1)
                                  (sender := (archivers s1 sender)\<lparr>stake := newStake\<rparr>),
                                totalStake := totalStake s1 - amount,
                                rewardDebt := (rewardDebt s1)
                                  (sender := (newStake * accRewardPerStake s1) div E18)\<rparr>,
                             [])) of
                  Inl e \<Rightarrow> Inl e
                | Inr (s2, evs2) \<Rightarrow>
                    (case call_value_cb k True s2 sender amount of
                       Inl e \<Rightarrow> Inl e
                     | Inr (s3, evs3) \<Rightarrow>
                         Inr (s3, evs @ evs2 @ Transfer sender amount # evs3
                                  @ [StakeWithdrawn sender amount newStake])))"

definition claimRewards_cb ::
  "handler \<Rightarrow> bool \<Rightarrow> registry \<Rightarrow> address \<Rightarrow> nat \<Rightarrow> error + registry \<times> effect list" where
  "claimRewards_cb k entered s sender now =
     (if entered then Inl ReentrancyGuardReentrantCall
      else claimRewards_internal_cb k True s sender now)"

definition resolveChallenge_cb ::
  "handler \<Rightarrow> bool \<Rightarrow> registry \<Rightarrow> address \<Rightarrow> nat \<Rightarrow> bool \<Rightarrow> nat
     \<Rightarrow> error + registry \<times> effect list" where
  "resolveChallenge_cb k entered s sender challengeId archiverHasData now =
     (if sender \<noteq> owner s then Inl OwnableUnauthorizedAccount
      else if deadline (challenges s challengeId) = 0 then Inl ChallengeNotFound
      else if resolved (challenges s challengeId) then Inl ChallengeAlreadyResolved
      else
        let s1 = s\<lparr>challenges := (challenges s)
                     (challengeId := (challenges s challengeId)
                        \<lparr>resolved := True, archiverWon := archiverHasData\<rparr>)\<rparr>;
            a = archiver (challenges s1 challengeId)
        in
          if archiverHasData then
            (if \<not> fits (successfulChallenges (archivers s1 a) + 1) then Inl Panic
             else
               case call_value_cb k entered
                      (s1\<lparr>archivers := (archivers s1)
                            (a := (archivers s1 a)
                               \<lparr>successfulChallenges :=
                                  successfulChallenges (archivers s1 a) + 1\<rparr>)\<rparr>)
                      a CHALLENGE_BOND of
                 Inl e \<Rightarrow> Inl e
               | Inr (s2, evs2) \<Rightarrow>
                   Inr (s2, Transfer a CHALLENGE_BOND # evs2
                            @ [ChallengeResolved challengeId archiverHasData 0]))
          else
            (if \<not> fits (failedChallenges (archivers s1 a) + 1) then Inl Panic
             else if \<not> fits (stake (archivers s1 a) * SLASH_PERCENT) then Inl Panic
             else
               let slashAmount = (stake (archivers s1 a) * SLASH_PERCENT) div 100 in
               if stake (archivers s1 a) < slashAmount then Inl Panic
               else if totalStake s1 < slashAmount then Inl Panic
               else if \<not> fits (slashAmount + CHALLENGE_BOND) then Inl Panic
               else
                 let challengerReward = slashAmount + CHALLENGE_BOND in
                 case call_value_cb k entered
                        (s1\<lparr>archivers := (archivers s1)
                              (a := (archivers s1 a)
                                 \<lparr>failedChallenges := failedChallenges (archivers s1 a) + 1,
                                  stake := stake (archivers s1 a) - slashAmount\<rparr>),
                            totalStake := totalStake s1 - slashAmount\<rparr>)
                        (challenger (challenges s1 challengeId)) challengerReward of
                   Inl e \<Rightarrow> Inl e
                 | Inr (s2, evs2) \<Rightarrow>
                     (case (if stake (archivers s2 a) < MIN_STAKE
                            then deactivateArchiver_internal s2 a now
                            else Inr (s2, [])) of
                        Inl e \<Rightarrow> Inl e
                      | Inr (s3, evs) \<Rightarrow>
                          Inr (s3, Transfer (challenger (challenges s1 challengeId))
                                     challengerReward
                                   # evs2 @ evs
                                   @ [ChallengeResolved challengeId archiverHasData
                                        slashAmount]))))"

definition resolveExpiredChallenge_cb ::
  "handler \<Rightarrow> bool \<Rightarrow> registry \<Rightarrow> nat \<Rightarrow> nat \<Rightarrow> error + registry \<times> effect list" where
  "resolveExpiredChallenge_cb k entered s challengeId now =
     (if deadline (challenges s challengeId) = 0 then Inl ChallengeNotFound
      else if resolved (challenges s challengeId) then Inl ChallengeAlreadyResolved
      else if now < deadline (challenges s challengeId) then Inl ChallengePeriodNotExpired
      else
        let s1 = s\<lparr>challenges := (challenges s)
                     (challengeId := (challenges s challengeId)
                        \<lparr>resolved := True, archiverWon := False\<rparr>)\<rparr>;
            a = archiver (challenges s1 challengeId)
        in
          if \<not> fits (failedChallenges (archivers s1 a) + 1) then Inl Panic
          else if \<not> fits (stake (archivers s1 a) * SLASH_PERCENT) then Inl Panic
          else
            let slashAmount = (stake (archivers s1 a) * SLASH_PERCENT) div 100 in
            if stake (archivers s1 a) < slashAmount then Inl Panic
            else if totalStake s1 < slashAmount then Inl Panic
            else if \<not> fits (slashAmount + CHALLENGE_BOND) then Inl Panic
            else
              let challengerReward = slashAmount + CHALLENGE_BOND in
              case call_value_cb k entered
                     (s1\<lparr>archivers := (archivers s1)
                           (a := (archivers s1 a)
                              \<lparr>failedChallenges := failedChallenges (archivers s1 a) + 1,
                               stake := stake (archivers s1 a) - slashAmount\<rparr>),
                         totalStake := totalStake s1 - slashAmount\<rparr>)
                     (challenger (challenges s1 challengeId)) challengerReward of
                Inl e \<Rightarrow> Inl e
              | Inr (s2, evs2) \<Rightarrow>
                  (case (if stake (archivers s2 a) < MIN_STAKE
                         then deactivateArchiver_internal s2 a now
                         else Inr (s2, [])) of
                     Inl e \<Rightarrow> Inl e
                   | Inr (s3, evs) \<Rightarrow>
                       Inr (s3, Transfer (challenger (challenges s1 challengeId))
                                  challengerReward
                                # evs2 @ evs
                                @ [ChallengeResolved challengeId False slashAmount])))"

text \<open>
  One external call, made while the guard is held or not. The functions that send no
  ether are the ones above.
\<close>

fun exec_cb :: "handler \<Rightarrow> bool \<Rightarrow> registry \<Rightarrow> nat \<Rightarrow> call \<Rightarrow> error + registry \<times> effect list" where
  "exec_cb k entered s now (Register sender val ep) = register_cb entered s sender val ep now"
| "exec_cb k entered s now (AddStake sender val) = addStake_cb k entered s sender val now"
| "exec_cb k entered s now (WithdrawStake sender amount) =
     withdrawStake_cb k entered s sender amount now"
| "exec_cb k entered s now (Deactivate sender) = deactivate s sender now"
| "exec_cb k entered s now (CommitToBlob sender h) = commitToBlob s sender h now"
| "exec_cb k entered s now (BatchCommitToBlobs sender hs) = batchCommitToBlobs s sender hs now"
| "exec_cb k entered s now (CreateChallenge sender val a h) =
     (case createChallenge s sender val a h now of
        Inl e \<Rightarrow> Inl e
      | Inr (cid, s', evs) \<Rightarrow> Inr (s', evs))"
| "exec_cb k entered s now (ResolveChallenge sender cid hasData) =
     resolveChallenge_cb k entered s sender cid hasData now"
| "exec_cb k entered s now (ResolveExpiredChallenge sender cid) =
     resolveExpiredChallenge_cb k entered s cid now"
| "exec_cb k entered s now (FundRewardPool sender val) = fundRewardPool s sender val"
| "exec_cb k entered s now (ClaimRewards sender) = claimRewards_cb k entered s sender now"
| "exec_cb k entered s now (Receive sender val) = receive s sender val"

text \<open>
  What the code at an address does when it is sent ether: it reverts, or it accepts after
  making the listed calls to the contract, in order, going on when one of them reverts.
  A call it makes carries its own address as \<^verbatim>\<open>msg.sender\<close>; calls listed under another
  sender are dropped. An externally owned account is \<open>Accept []\<close>.
\<close>

datatype reaction = Reject | Accept "call list"

fun sender_of :: "call \<Rightarrow> address" where
  "sender_of (Register sender val ep) = sender"
| "sender_of (AddStake sender val) = sender"
| "sender_of (WithdrawStake sender amount) = sender"
| "sender_of (Deactivate sender) = sender"
| "sender_of (CommitToBlob sender h) = sender"
| "sender_of (BatchCommitToBlobs sender hs) = sender"
| "sender_of (CreateChallenge sender val a h) = sender"
| "sender_of (ResolveChallenge sender cid hasData) = sender"
| "sender_of (ResolveExpiredChallenge sender cid) = sender"
| "sender_of (FundRewardPool sender val) = sender"
| "sender_of (ClaimRewards sender) = sender"
| "sender_of (Receive sender val) = sender"

fun run_calls ::
  "(registry \<Rightarrow> call \<Rightarrow> error + registry \<times> effect list) \<Rightarrow> registry \<Rightarrow> call list
     \<Rightarrow> registry \<times> effect list" where
  "run_calls f s [] = (s, [])"
| "run_calls f s (c # cs) =
     (case f s c of
        Inl e \<Rightarrow> run_calls f s cs
      | Inr (s', evs) \<Rightarrow> (case run_calls f s' cs of (s'', evs') \<Rightarrow> (s'', evs @ evs')))"

text \<open>
  Calls nest at most \<open>depth\<close> deep, as the call stack of the machine is bounded: at depth
  \<open>0\<close> the recipient's own calls fail, and it accepts.
\<close>

primrec react :: "nat \<Rightarrow> (address \<Rightarrow> reaction) \<Rightarrow> nat \<Rightarrow> handler" where
  "react 0 = (\<lambda>env now entered a s.
     case env a of Reject \<Rightarrow> None | Accept cs \<Rightarrow> Some (s, []))"
| "react (Suc n) = (\<lambda>env now entered a s.
     case env a of
       Reject \<Rightarrow> None
     | Accept cs \<Rightarrow>
         Some (run_calls (\<lambda>t c. exec_cb (react n env now) entered t now c) s
                 (filter (\<lambda>c. sender_of c = a) cs)))"

fun run_cb ::
  "nat \<Rightarrow> (address \<Rightarrow> reaction) \<Rightarrow> registry \<Rightarrow> (nat \<times> call) list \<Rightarrow> registry \<times> effect list" where
  "run_cb depth env s [] = (s, [])"
| "run_cb depth env s ((now, c) # cs) =
     (case exec_cb (react depth env now) False s now c of
        Inl e \<Rightarrow> run_cb depth env s cs
      | Inr (s', evs) \<Rightarrow>
          (case run_cb depth env s' cs of (s'', evs') \<Rightarrow> (s'', evs @ evs')))"

text \<open>
  Archiver \<open>5\<close> is a contract whose \<^verbatim>\<open>receive()\<close> calls \<^verbatim>\<open>resolveExpiredChallenge(0)\<close>;
  every other address is an externally owned account.
\<close>

definition reentering :: "address \<Rightarrow> reaction" where
  "reentering = (\<lambda>_. Accept [])(5 := Accept [ResolveExpiredChallenge 5 0])"

definition reentrant_history :: "(nat \<times> call) list" where
  "reentrant_history =
     [(1, Register 5 1000000000000000000 ''a''),
      (2, FundRewardPool 3 1000000000000000000),
      (3, Register 6 1000000000000000000 ''b''),
      (4, CreateChallenge 7 10000000000000000 5 99),
      (90000, WithdrawStake 5 0)]"

definition s_reentered :: registry where
  "s_reentered = fst (run_cb 1024 reentering (init 1 2) reentrant_history)"

subsection \<open>Concrete histories\<close>

text \<open>
  Small histories on which the functions are evaluated. The deployer, who is the owner,
  is address \<open>1\<close>; the fee recipient is \<open>2\<close>; \<open>5\<close>, \<open>6\<close> and \<open>8\<close> are archivers, \<open>7\<close> is a
  challenger and \<open>3\<close> a funder.
\<close>

definition registered_history :: "(nat \<times> call) list" where
  "registered_history = [(1, Register 5 300000000000000000 ''ep'')]"

definition s_registered :: registry where
  "s_registered = fst (run (init 1 2) registered_history)"

definition open_history :: "(nat \<times> call) list" where
  "open_history =
     [(1, Register 5 100000000000000000 ''ep''),
      (2, CreateChallenge 7 10000000000000000 5 99)]"

definition s_open :: registry where
  "s_open = fst (run (init 1 2) open_history)"

definition slashed_history :: "(nat \<times> call) list" where
  "slashed_history = open_history @ [(3, ResolveChallenge 1 0 False)]"

definition s_slashed :: registry where
  "s_slashed = fst (run (init 1 2) slashed_history)"

definition s_topped :: registry where
  "s_topped = fst (run s_slashed [(4, AddStake 5 100000000000000000)])"

definition funded_history :: "(nat \<times> call) list" where
  "funded_history =
     [(1, Register 5 100000000000000000 ''ep''),
      (2, FundRewardPool 3 100)]"

definition s_funded :: registry where
  "s_funded = fst (run (init 1 2) funded_history)"

definition s_claimed :: registry where
  "s_claimed = fst (run s_funded [(3, ClaimRewards 5)])"

subsection \<open>Invariants of reachable storage\<close>

text \<open>Challenge slots at or above the counter are empty, and only created slots are resolved.\<close>

definition challenge_inv :: "registry \<Rightarrow> bool" where
  "challenge_inv s =
     (\<forall>cid. (nextChallengeId s \<le> cid \<longrightarrow> deadline (challenges s cid) = 0) \<and>
            (resolved (challenges s cid) \<longrightarrow> deadline (challenges s cid) \<noteq> 0))"

definition later_history :: "(nat \<times> call) list" where
  "later_history =
     [(4, AddStake 5 100000000000000000),
      (5, ResolveChallenge 1 0 True),
      (90000, ResolveExpiredChallenge 7 0),
      (90001, FundRewardPool 3 1000)]"

text \<open>
  The ledger total is the sum of all stakes, and an address without a record holds no
  stake. \<open>stake_moved s s' a\<close> says that between \<open>s\<close> and \<open>s'\<close> only the stake of \<open>a\<close>
  changed, and \<open>totalStake\<close> by as much.
\<close>

definition stake_inv :: "registry \<Rightarrow> bool" where
  "stake_inv s =
     (totalStake s = (\<Sum>a\<in>UNIV. stake (archivers s a)) \<and>
      (\<forall>a. registeredAt (archivers s a) = 0 \<longrightarrow> stake (archivers s a) = 0))"

definition stake_moved :: "registry \<Rightarrow> registry \<Rightarrow> address \<Rightarrow> bool" where
  "stake_moved s s' a =
     ((\<forall>x. x \<noteq> a \<longrightarrow> stake (archivers s' x) = stake (archivers s x) \<and>
                       registeredAt (archivers s' x) = registeredAt (archivers s x)) \<and>
      totalStake s' + stake (archivers s a) = totalStake s + stake (archivers s' a) \<and>
      (registeredAt (archivers s' a) = 0 \<longrightarrow> stake (archivers s' a) = 0))"

text \<open>
  What the accumulator still owes an archiver, in units of \<open>1 / 1e18\<close> wei and before
  rounding: \<open>stake * accRewardPerStake - 1e18 * rewardDebt\<close>, or nothing when the debt is
  ahead.
\<close>

definition owed :: "registry \<Rightarrow> address \<Rightarrow> nat" where
  "owed s a = stake (archivers s a) * accRewardPerStake s - E18 * rewardDebt s a"

definition rounding_history :: "(nat \<times> call) list" where
  "rounding_history =
     [(1, Register 5 1000000000000000000 ''a''),
      (2, FundRewardPool 3 1),
      (3, Register 6 1500000000000000000 ''b''),
      (4, Register 8 1500000000000000000 ''c''),
      (5, FundRewardPool 3 4),
      (6, ClaimRewards 5),
      (7, ClaimRewards 6),
      (8, ClaimRewards 8)]"

definition unsettled_history :: "(nat \<times> call) list" where
  "unsettled_history =
     [(1, Register 5 1000000000000000000 ''a''),
      (2, FundRewardPool 3 1000000000000000000),
      (3, Register 6 1000000000000000000 ''b''),
      (4, CreateChallenge 7 10000000000000000 5 99),
      (5, CreateChallenge 7 10000000000000000 6 99)]"

definition s_unsettled :: registry where
  "s_unsettled = fst (run (init 1 2) unsettled_history)"

definition s_slashed_by_verdict :: registry where
  "s_slashed_by_verdict = fst (run s_unsettled [(6, ResolveChallenge 1 0 False)])"

definition s_slashed_by_expiry :: registry where
  "s_slashed_by_expiry = fst (run s_unsettled [(90000, ResolveExpiredChallenge 7 1)])"

section \<open>Shape of the internal functions\<close>


lemma claim_cases:
  assumes "claimRewards_internal s a now = Inr (s', evs)"
  obtains (noop) "s' = s" "evs = []"
  | (paid) p where "p > 0" "stake (archivers s a) \<noteq> 0"
      "(stake (archivers s a) * accRewardPerStake s) div E18 = rewardDebt s a + p"
      "p \<le> balance s"
      "s' = s\<lparr>rewardDebt := (rewardDebt s)(a := rewardDebt s a + p),
               archivers := (archivers s)(a := (archivers s a)\<lparr>lastClaimAt := now\<rparr>),
               balance := balance s - p\<rparr>"
      "evs = [Transfer a p, RewardsClaimed a p]"
proof (cases "stake (archivers s a) = 0")
  case True
  with assms noop show ?thesis by (simp add: claimRewards_internal_def)
next
  case nz: False
  let ?acc = "(stake (archivers s a) * accRewardPerStake s) div E18"
  from assms nz have f: "fits (stake (archivers s a) * accRewardPerStake s)"
    and ge: "rewardDebt s a \<le> ?acc"
    by (auto simp: claimRewards_internal_def Let_def split: if_splits)
  show ?thesis
  proof (cases "?acc - rewardDebt s a > 0")
    case False
    with assms nz f ge noop show ?thesis
      by (simp add: claimRewards_internal_def Let_def)
  next
    case True
    with assms nz f ge have "?acc - rewardDebt s a \<le> balance s"
      by (auto simp: claimRewards_internal_def Let_def call_value_def split: if_splits)
    with assms nz f ge True show ?thesis
      by (intro paid [of "?acc - rewardDebt s a"])
         (auto simp: claimRewards_internal_def Let_def call_value_def split: if_splits)
  qed
qed

lemma deactivate_shape:
  assumes "deactivateArchiver_internal s a now = Inr (s', evs)"
  shows "\<exists>l i. s' = s\<lparr>archivers := (archivers s)(a := (archivers s a)\<lparr>active := False\<rparr>),
                       activeArchivers := l, archiverIndex := i\<rparr>"
    and "evs = [ArchiverDeactivated a now]"
proof -
  show "evs = [ArchiverDeactivated a now]"
    using assms by (auto simp: deactivateArchiver_internal_def Let_def split: if_splits)
  show "\<exists>l i. s' = s\<lparr>archivers := (archivers s)(a := (archivers s a)\<lparr>active := False\<rparr>),
                       activeArchivers := l, archiverIndex := i\<rparr>"
  proof (intro exI [of _ "activeArchivers s'"] exI [of _ "archiverIndex s'"])
    show "s' = s\<lparr>archivers := (archivers s)(a := (archivers s a)\<lparr>active := False\<rparr>),
                       activeArchivers := activeArchivers s', archiverIndex := archiverIndex s'\<rparr>"
    using assms by (auto simp: deactivateArchiver_internal_def Let_def split: if_splits)
  qed
qed


lemma slash_tail_shape:
  assumes "(case call_value S c r of
              Inl e \<Rightarrow> Inl e
            | Inr s2 \<Rightarrow>
                (case (if stake (archivers s2 a) < MIN_STAKE
                       then deactivateArchiver_internal s2 a now
                       else Inr (s2, [])) of
                   Inl e \<Rightarrow> Inl e
                 | Inr (s3, evs) \<Rightarrow> Inr (s3, F evs))) = Inr (s', evs')"
  shows "r \<le> balance S \<and>
         s' = S\<lparr>balance := balance S - r,
                 archivers := (archivers S)
                   (a := (archivers S a)
                      \<lparr>active := (if stake (archivers S a) < MIN_STAKE then False
                                  else active (archivers S a))\<rparr>),
                 activeArchivers := activeArchivers s', archiverIndex := archiverIndex s'\<rparr> \<and>
         evs' = F (if stake (archivers S a) < MIN_STAKE then [ArchiverDeactivated a now] else [])"
proof (cases "balance S < r")
  case True
  with assms show ?thesis by (simp add: call_value_def)
next
  case enough: False
  let ?s2 = "S\<lparr>balance := balance S - r\<rparr>"
  show ?thesis
  proof (cases "stake (archivers S a) < MIN_STAKE")
    case True
    with assms enough obtain ev where d: "deactivateArchiver_internal ?s2 a now = Inr (s', ev)"
      and e: "evs' = F ev"
      by (auto simp: call_value_def split: sum.splits)
    from deactivate_shape [OF d] obtain l i where
      "s' = ?s2\<lparr>archivers := (archivers ?s2)(a := (archivers ?s2 a)\<lparr>active := False\<rparr>),
               activeArchivers := l, archiverIndex := i\<rparr>" and "ev = [ArchiverDeactivated a now]"
      by blast
    with enough True e show ?thesis by auto
  next
    case False
    with assms enough have "s' = ?s2" and "evs' = F []" by (auto simp: call_value_def)
    with enough False show ?thesis by auto
  qed
qed

lemma resolveChallenge_shape:
  assumes "resolveChallenge s sender cid b now = Inr (s', evs)"
  shows "sender = owner s \<and> deadline (challenges s cid) \<noteq> 0 \<and> \<not> resolved (challenges s cid) \<and>
    challenges s' = (challenges s)
      (cid := (challenges s cid)\<lparr>resolved := True, archiverWon := b\<rparr>) \<and>
    nextChallengeId s' = nextChallengeId s \<and>
    accRewardPerStake s' = accRewardPerStake s \<and> rewardDebt s' = rewardDebt s \<and>
    (if b then
       CHALLENGE_BOND \<le> balance s \<and>
       archivers s' = (archivers s)
         (archiver (challenges s cid) := (archivers s (archiver (challenges s cid)))
            \<lparr>successfulChallenges :=
               successfulChallenges (archivers s (archiver (challenges s cid))) + 1\<rparr>) \<and>
       totalStake s' = totalStake s \<and>
       balance s' = balance s - CHALLENGE_BOND \<and>
       evs = [Transfer (archiver (challenges s cid)) CHALLENGE_BOND, ChallengeResolved cid True 0]
     else
       (stake (archivers s (archiver (challenges s cid))) * SLASH_PERCENT) div 100
          \<le> stake (archivers s (archiver (challenges s cid))) \<and>
       (stake (archivers s (archiver (challenges s cid))) * SLASH_PERCENT) div 100
          \<le> totalStake s \<and>
       (stake (archivers s (archiver (challenges s cid))) * SLASH_PERCENT) div 100 + CHALLENGE_BOND
          \<le> balance s \<and>
       archivers s' = (archivers s)
         (archiver (challenges s cid) := (archivers s (archiver (challenges s cid)))
            \<lparr>failedChallenges :=
               failedChallenges (archivers s (archiver (challenges s cid))) + 1,
             stake := stake (archivers s (archiver (challenges s cid)))
               - (stake (archivers s (archiver (challenges s cid))) * SLASH_PERCENT) div 100,
             active :=
               (if stake (archivers s (archiver (challenges s cid)))
                     - (stake (archivers s (archiver (challenges s cid))) * SLASH_PERCENT) div 100
                   < MIN_STAKE
                then False else active (archivers s (archiver (challenges s cid))))\<rparr>) \<and>
       totalStake s' = totalStake s
         - (stake (archivers s (archiver (challenges s cid))) * SLASH_PERCENT) div 100 \<and>
       balance s' = balance s
         - ((stake (archivers s (archiver (challenges s cid))) * SLASH_PERCENT) div 100
            + CHALLENGE_BOND) \<and>
       evs = Transfer (challenger (challenges s cid))
               ((stake (archivers s (archiver (challenges s cid))) * SLASH_PERCENT) div 100
                  + CHALLENGE_BOND)
             # (if stake (archivers s (archiver (challenges s cid)))
                     - (stake (archivers s (archiver (challenges s cid))) * SLASH_PERCENT) div 100
                   < MIN_STAKE
                then [ArchiverDeactivated (archiver (challenges s cid)) now] else [])
             @ [ChallengeResolved cid False
                  ((stake (archivers s (archiver (challenges s cid))) * SLASH_PERCENT) div 100)])"
proof -
  from assms have pre: "sender = owner s" "deadline (challenges s cid) \<noteq> 0"
    "\<not> resolved (challenges s cid)"
    by (auto simp: resolveChallenge_def split: if_splits)
  show ?thesis
  proof (cases b)
    case True
    with assms pre show ?thesis
      by (auto simp: resolveChallenge_def Let_def call_value_def split: if_splits)
  next
    case False
    let ?a = "archiver (challenges s cid)"
    let ?k = "(stake (archivers s ?a) * SLASH_PERCENT) div 100"
    let ?S = "s\<lparr>challenges := (challenges s)
                  (cid := (challenges s cid)\<lparr>resolved := True, archiverWon := False\<rparr>),
               archivers := (archivers s)
                  (?a := (archivers s ?a)
                     \<lparr>failedChallenges := failedChallenges (archivers s ?a) + 1,
                      stake := stake (archivers s ?a) - ?k\<rparr>),
               totalStake := totalStake s - ?k\<rparr>"
    from assms pre False have chk: "?k \<le> stake (archivers s ?a)" "?k \<le> totalStake s"
      and fit: "fits (failedChallenges (archivers s ?a) + 1)"
        "fits (stake (archivers s ?a) * SLASH_PERCENT)" "fits (?k + CHALLENGE_BOND)"
      by (auto simp: resolveChallenge_def Let_def split: if_splits)
    from assms pre False chk fit have
      "(case call_value ?S (challenger (challenges s cid)) (?k + CHALLENGE_BOND) of
              Inl e \<Rightarrow> Inl e
            | Inr s2 \<Rightarrow>
                (case (if stake (archivers s2 ?a) < MIN_STAKE
                       then deactivateArchiver_internal s2 ?a now
                       else Inr (s2, [])) of
                   Inl e \<Rightarrow> Inl e
                 | Inr (s3, evs) \<Rightarrow> Inr (s3, Transfer (challenger (challenges s cid))
                                     (?k + CHALLENGE_BOND)
                                   # evs
                                   @ [ChallengeResolved cid False ?k]))) = Inr (s', evs)"
      by (simp add: resolveChallenge_def Let_def cong: sum.case_cong if_cong prod.case_cong)
    from slash_tail_shape [OF this] have bal: "?k + CHALLENGE_BOND \<le> balance s"
      and s': "s' = ?S\<lparr>balance := balance ?S - (?k + CHALLENGE_BOND),
                 archivers := (archivers ?S)
                   (?a := (archivers ?S ?a)
                      \<lparr>active := (if stake (archivers ?S ?a) < MIN_STAKE then False
                                  else active (archivers ?S ?a))\<rparr>),
                 activeArchivers := activeArchivers s', archiverIndex := archiverIndex s'\<rparr>"
      and ev: "evs = Transfer (challenger (challenges s cid)) (?k + CHALLENGE_BOND)
                # (if stake (archivers ?S ?a) < MIN_STAKE then [ArchiverDeactivated ?a now] else [])
                @ [ChallengeResolved cid False ?k]"
      by simp_all
    have f1: "challenges s' = (challenges s)
                  (cid := (challenges s cid)\<lparr>resolved := True, archiverWon := False\<rparr>)"
      by (subst s') simp
    have f2: "nextChallengeId s' = nextChallengeId s" by (subst s') simp
    have f3: "accRewardPerStake s' = accRewardPerStake s" by (subst s') simp
    have f4: "rewardDebt s' = rewardDebt s" by (subst s') simp
    have f5: "totalStake s' = totalStake s - ?k" by (subst s') simp
    have f6: "balance s' = balance s - (?k + CHALLENGE_BOND)" by (subst s') simp
    have f7: "archivers s' = (archivers s)
         (?a := (archivers s ?a)
            \<lparr>failedChallenges := failedChallenges (archivers s ?a) + 1,
             stake := stake (archivers s ?a) - ?k,
             active := (if stake (archivers s ?a) - ?k < MIN_STAKE
                        then False else active (archivers s ?a))\<rparr>)"
      by (subst s') simp
    from ev have f8: "evs = Transfer (challenger (challenges s cid)) (?k + CHALLENGE_BOND)
                # (if stake (archivers s ?a) - ?k < MIN_STAKE
                   then [ArchiverDeactivated ?a now] else [])
                @ [ChallengeResolved cid False ?k]"
      by simp
    from pre False chk bal f1 f2 f3 f4 f5 f6 f7 f8 show ?thesis
      by (simp only: if_False simp_thms)
  qed
qed

lemma resolveExpired_as_resolve:
  assumes "deadline (challenges s cid) \<noteq> 0"
    and "\<not> resolved (challenges s cid)"
    and "deadline (challenges s cid) \<le> now"
  shows "resolveExpiredChallenge s cid now = resolveChallenge s (owner s) cid False now"
  using assms by (simp add: resolveExpiredChallenge_def resolveChallenge_def)

lemma resolveExpired_pre:
  assumes "resolveExpiredChallenge s cid now = Inr (s', evs)"
  shows "deadline (challenges s cid) \<noteq> 0 \<and> \<not> resolved (challenges s cid) \<and>
         deadline (challenges s cid) \<le> now"
  using assms by (auto simp: resolveExpiredChallenge_def split: if_splits)

lemma resolveExpired_to_resolve:
  assumes "resolveExpiredChallenge s cid now = Inr (s', evs)"
  shows "resolveChallenge s (owner s) cid False now = Inr (s', evs)"
  using assms resolveExpired_pre [OF assms] resolveExpired_as_resolve [of s cid now] by simp

lemma batch_loop_acc:
  "batch_loop s a hs now = Inr (s', evs) \<Longrightarrow> accRewardPerStake s' = accRewardPerStake s"
  by (induction hs arbitrary: s s' evs) (auto split: if_splits sum.splits)

lemma exec_acc_mono:
  assumes "exec s now c = Inr (s', evs)"
  shows "accRewardPerStake s \<le> accRewardPerStake s'"
proof (cases c)
  case (Register a v ep)
  with assms show ?thesis by (auto simp: register_def split: if_splits)
next
  case (AddStake a v)
  with assms show ?thesis
    by (auto simp: addStake_def split: if_splits sum.splits elim!: claim_cases)
next
  case (WithdrawStake a v)
  with assms show ?thesis
    by (auto simp: withdrawStake_def Let_def call_value_def split: if_splits sum.splits
        elim!: claim_cases dest!: deactivate_shape(1))
next
  case (Deactivate a)
  with assms show ?thesis
    by (auto simp: deactivate_def split: if_splits dest!: deactivate_shape(1))
next
  case (CommitToBlob a h)
  with assms show ?thesis by (auto simp: commitToBlob_def split: if_splits)
next
  case (BatchCommitToBlobs a hs)
  with assms show ?thesis
    by (auto simp: batchCommitToBlobs_def split: if_splits dest: batch_loop_acc)
next
  case (CreateChallenge a v b h)
  with assms show ?thesis
    by (auto simp: createChallenge_def Let_def split: if_splits)
next
  case (ResolveChallenge a cid b)
  with assms have "resolveChallenge s a cid b now = Inr (s', evs)" by simp
  from resolveChallenge_shape [OF this] show ?thesis by simp
next
  case (ResolveExpiredChallenge a cid)
  with assms have "resolveExpiredChallenge s cid now = Inr (s', evs)" by simp
  from resolveChallenge_shape [OF resolveExpired_to_resolve [OF this]] show ?thesis by simp
next
  case (FundRewardPool a v)
  with assms show ?thesis
    by (auto simp: fundRewardPool_def split: if_splits sum.splits)
next
  case (ClaimRewards a)
  with assms show ?thesis
    by (auto simp: claimRewards_def elim!: claim_cases)
next
  case (Receive a v)
  with assms show ?thesis
    by (auto simp: receive_def split: if_splits sum.splits)
qed

text \<open>
  C8. \<open>accRewardPerStake\<close> never decreases: over any history of calls from any
  storage, reverted calls included, its value at the end is at least its value at the
  start. Only \<^verbatim>\<open>fundRewardPool\<close> and \<^verbatim>\<open>receive\<close> write it, by a checked addition.
\<close>

theorem accRewardPerStake_monotone:
  "accRewardPerStake s \<le> accRewardPerStake (fst (run s cs))"
proof (induction cs arbitrary: s)
  case Nil
  show ?case by simp
next
  case (Cons tc cs)
  obtain now c where tc: "tc = (now, c)" by (cases tc)
  show ?case
  proof (cases "exec s now c")
    case (Inl e)
    with tc Cons.IH [of s] show ?thesis by simp
  next
    case (Inr r)
    obtain s' evs where r: "r = (s', evs)" by (cases r)
    from Inr r have "accRewardPerStake s \<le> accRewardPerStake s'"
      by (auto dest: exec_acc_mono)
    also have "\<dots> \<le> accRewardPerStake (fst (run s' cs))" by (rule Cons.IH)
    finally show ?thesis using tc Inr r by (auto split: prod.splits)
  qed
qed


section \<open>Generic induction over histories\<close>

lemma run_invariant:
  assumes "P s"
    and "\<And>s now c s' evs. P s \<Longrightarrow> exec s now c = Inr (s', evs) \<Longrightarrow> P s'"
  shows "P (fst (run s cs))"
  using assms(1)
proof (induction cs arbitrary: s)
  case Nil
  then show ?case by simp
next
  case (Cons tc cs)
  obtain now c where tc: "tc = (now, c)" by (cases tc)
  show ?case
  proof (cases "exec s now c")
    case (Inl e)
    with tc Cons show ?thesis by simp
  next
    case (Inr r)
    obtain s' evs where r: "r = (s', evs)" by (cases r)
    from Inr r Cons.prems have "P s'" by (auto intro: assms(2))
    then have "P (fst (run s' cs))" by (rule Cons.IH)
    with tc Inr r show ?thesis by (auto split: prod.splits)
  qed
qed

section \<open>Withdrawal\<close>



section \<open>Evaluation of the concrete histories\<close>

lemmas eval_defs = register_def addStake_def withdrawStake_def deactivate_def commitToBlob_def
  batchCommitToBlobs_def createChallenge_def resolveChallenge_def resolveExpiredChallenge_def
  fundRewardPool_def claimRewards_def receive_def claimRewards_internal_def
  deactivateArchiver_internal_def call_value_def fits_def MAX_UINT256_def MIN_STAKE_def
  CHALLENGE_PERIOD_def SLASH_PERCENT_def CHALLENGE_BOND_def E18_def init_def zero_archiver_def
  zero_challenge_def Let_def

lemmas history_defs = registered_history_def s_registered_def open_history_def s_open_def
  slashed_history_def s_slashed_def s_topped_def

lemma s_registered_facts:
  "registeredAt (archivers s_registered 5) = 1"
  "stake (archivers s_registered 5) = 300000000000000000"
  "active (archivers s_registered 5)"
  "blobArchivers s_registered 99 = []"
  "nextChallengeId s_registered = 0"
  by (simp_all add: history_defs eval_defs)

lemma s_open_facts:
  "deadline (challenges s_open 0) = 86402"
  "\<not> resolved (challenges s_open 0)"
  "owner s_open = 1"
  by (simp_all add: history_defs eval_defs)

lemma s_slashed_facts:
  "\<not> active (archivers s_slashed 5)"
  "stake (archivers s_slashed 5) = 90000000000000000"
  "resolved (challenges s_slashed 0)"
  by (simp_all add: history_defs eval_defs)

section \<open>Expiry against an explicit verdict\<close>

text \<open>
  C4. On a challenge that exists, is unresolved and has reached its deadline,
  \<^verbatim>\<open>resolveExpiredChallenge\<close> returns exactly what \<^verbatim>\<open>resolveChallenge\<close> returns when
  the owner calls it with \<^verbatim>\<open>archiverHasData = false\<close>: the same storage, the same events
  and transfers, or the same revert. When it returns, the archiver's failure counter is
  one higher, \<open>slashAmount = stake * SLASH_PERCENT / 100\<close> has left the archiver's stake
  and \<open>totalStake\<close>, the challenger was sent \<open>slashAmount + CHALLENGE_BOND\<close>, the archiver
  is inactive if its stake is now below \<open>MIN_STAKE\<close> and keeps its flag otherwise, and
  the challenge is recorded as resolved against the archiver.
\<close>

theorem resolveExpired_same_as_resolve_false:
  assumes "deadline (challenges s cid) \<noteq> 0"
    and "\<not> resolved (challenges s cid)"
    and "deadline (challenges s cid) \<le> now"
  shows "resolveExpiredChallenge s cid now = resolveChallenge s (owner s) cid False now \<and>
    (\<forall>s' evs. resolveExpiredChallenge s cid now = Inr (s', evs) \<longrightarrow>
         failedChallenges (archivers s' (archiver (challenges s cid))) =
           failedChallenges (archivers s (archiver (challenges s cid))) + 1 \<and>
         stake (archivers s' (archiver (challenges s cid))) =
           stake (archivers s (archiver (challenges s cid)))
             - (stake (archivers s (archiver (challenges s cid))) * SLASH_PERCENT) div 100 \<and>
         totalStake s' =
           totalStake s
             - (stake (archivers s (archiver (challenges s cid))) * SLASH_PERCENT) div 100 \<and>
         hd evs = Transfer (challenger (challenges s cid))
           ((stake (archivers s (archiver (challenges s cid))) * SLASH_PERCENT) div 100
              + CHALLENGE_BOND) \<and>
         balance s' = balance s
           - ((stake (archivers s (archiver (challenges s cid))) * SLASH_PERCENT) div 100
              + CHALLENGE_BOND) \<and>
         active (archivers s' (archiver (challenges s cid))) =
           (if stake (archivers s' (archiver (challenges s cid))) < MIN_STAKE then False
            else active (archivers s (archiver (challenges s cid)))) \<and>
         challenges s' cid = (challenges s cid)\<lparr>resolved := True, archiverWon := False\<rparr>)"
proof (intro conjI allI impI)
  show "resolveExpiredChallenge s cid now = resolveChallenge s (owner s) cid False now"
    using assms by (simp add: resolveExpiredChallenge_def resolveChallenge_def)
next
  fix s' evs
  assume "resolveExpiredChallenge s cid now = Inr (s', evs)"
  then have "failedChallenges (archivers s' (archiver (challenges s cid))) =
           failedChallenges (archivers s (archiver (challenges s cid))) + 1 \<and>
         stake (archivers s' (archiver (challenges s cid))) =
           stake (archivers s (archiver (challenges s cid)))
             - (stake (archivers s (archiver (challenges s cid))) * SLASH_PERCENT) div 100 \<and>
         totalStake s' =
           totalStake s
             - (stake (archivers s (archiver (challenges s cid))) * SLASH_PERCENT) div 100 \<and>
         hd evs = Transfer (challenger (challenges s cid))
           ((stake (archivers s (archiver (challenges s cid))) * SLASH_PERCENT) div 100
              + CHALLENGE_BOND) \<and>
         balance s' = balance s
           - ((stake (archivers s (archiver (challenges s cid))) * SLASH_PERCENT) div 100
              + CHALLENGE_BOND) \<and>
         active (archivers s' (archiver (challenges s cid))) =
           (if stake (archivers s' (archiver (challenges s cid))) < MIN_STAKE then False
            else active (archivers s (archiver (challenges s cid)))) \<and>
         challenges s' cid = (challenges s cid)\<lparr>resolved := True, archiverWon := False\<rparr>"
    using assms
    by (auto simp: resolveExpiredChallenge_def Let_def call_value_def
        split: if_splits sum.splits dest!: deactivate_shape(1))
  then show "failedChallenges (archivers s' (archiver (challenges s cid))) =
           failedChallenges (archivers s (archiver (challenges s cid))) + 1"
    and "stake (archivers s' (archiver (challenges s cid))) =
           stake (archivers s (archiver (challenges s cid)))
             - (stake (archivers s (archiver (challenges s cid))) * SLASH_PERCENT) div 100"
    and "totalStake s' =
           totalStake s
             - (stake (archivers s (archiver (challenges s cid))) * SLASH_PERCENT) div 100"
    and "hd evs = Transfer (challenger (challenges s cid))
           ((stake (archivers s (archiver (challenges s cid))) * SLASH_PERCENT) div 100
              + CHALLENGE_BOND)"
    and "balance s' = balance s
           - ((stake (archivers s (archiver (challenges s cid))) * SLASH_PERCENT) div 100
              + CHALLENGE_BOND)"
    and "active (archivers s' (archiver (challenges s cid))) =
           (if stake (archivers s' (archiver (challenges s cid))) < MIN_STAKE then False
            else active (archivers s (archiver (challenges s cid))))"
    and "challenges s' cid = (challenges s cid)\<lparr>resolved := True, archiverWon := False\<rparr>"
    by blast+
qed

theorem resolveExpired_same_as_resolve_false_witness:
  "deadline (challenges s_open 0) \<noteq> 0 \<and> \<not> resolved (challenges s_open 0) \<and>
   deadline (challenges s_open 0) \<le> 86402 \<and>
   resolveExpiredChallenge s_open 0 86402 = resolveChallenge s_open (owner s_open) 0 False 86402 \<and>
   (\<exists>s' evs. resolveExpiredChallenge s_open 0 86402 = Inr (s', evs) \<and>
      stake (archivers s' 5) = 90000000000000000 \<and> \<not> active (archivers s' 5) \<and>
      failedChallenges (archivers s' 5) = 1 \<and>
      hd evs = Transfer 7 20000000000000000)"
  using resolveExpired_same_as_resolve_false [of s_open 0 86402]
  by (simp add: history_defs eval_defs)

section \<open>Claiming twice\<close>

text \<open>
  C7. When \<^verbatim>\<open>claimRewards()\<close> returns for a caller, it has sent exactly the amount that
  \<^verbatim>\<open>pendingRewards\<close> reported before the call (nothing at all when that amount is zero),
  and a second call right after it, at any later time and with no stake change or funding
  in between, returns with no transfer, no event and storage exactly as the first call
  left it.
\<close>

theorem claimRewards_twice:
  assumes "claimRewards s a now = Inr (s1, evs1)"
  shows "(\<exists>p. pendingRewards s a = Inr p \<and> total_paid evs1 = p \<and>
            evs1 = (if p = 0 then [] else [Transfer a p, RewardsClaimed a p])) \<and>
         claimRewards s1 a now' = Inr (s1, [])"
proof -
  from assms have c: "claimRewards_internal s a now = Inr (s1, evs1)"
    by (simp add: claimRewards_def)
  then show ?thesis
  proof (cases rule: claim_cases)
    case noop
    with c show ?thesis
      by (auto simp: claimRewards_def claimRewards_internal_def pendingRewards_def
          total_paid_def Let_def split: if_splits sum.splits)
  next
    case (paid p)
    from c paid(1,2,3) have "pendingRewards s a = Inr p"
      by (auto simp: claimRewards_internal_def pendingRewards_def Let_def split: if_splits)
    moreover from c paid(1,2,3) have "fits (stake (archivers s a) * accRewardPerStake s)"
      by (auto simp: claimRewards_internal_def split: if_splits)
    then have "claimRewards s1 a now' = Inr (s1, [])"
      using paid by (simp add: claimRewards_def claimRewards_internal_def Let_def)
    ultimately show ?thesis using paid by (simp add: total_paid_def)
  qed
qed


lemmas history_defs2 = funded_history_def s_funded_def s_claimed_def

theorem claimRewards_twice_witness:
  "claimRewards s_funded 5 3 = Inr (s_claimed, [Transfer 5 100, RewardsClaimed 5 100]) \<and>
   pendingRewards s_funded 5 = Inr 100 \<and>
   claimRewards s_claimed 5 4 = Inr (s_claimed, [])"
proof -
  have h: "claimRewards s_funded 5 3 = Inr (s_claimed, [Transfer 5 100, RewardsClaimed 5 100])"
    by (simp add: history_defs2 eval_defs)
  have p: "pendingRewards s_funded 5 = Inr 100"
    by (simp add: history_defs2 eval_defs pendingRewards_def)
  from h p claimRewards_twice [OF h, of 4] show ?thesis by simp
qed


section \<open>Opening a challenge\<close>

text \<open>
  C10. As long as the challenge counter and the deadline stay within \<^verbatim>\<open>uint256\<close>,
  \<^verbatim>\<open>createChallenge\<close> reverts exactly when the value sent differs from \<open>CHALLENGE_BOND\<close>
  or the archiver named is not active: with \<open>InvalidBond\<close> in the first case, whatever
  the archiver, and with \<open>ArchiverNotActive\<close> in the second. The list of archivers
  committed to the blob hash is not read: the outcome is the same whatever
  \<open>blobArchivers\<close> holds, so a challenge on a hash the archiver never committed to is
  accepted.
\<close>

theorem createChallenge_fails_iff:
  assumes "fits (nextChallengeId s + 1)" and "fits (now + CHALLENGE_PERIOD)"
  shows "((\<exists>e. createChallenge s sender val a h now = Inl e) \<longleftrightarrow>
            val \<noteq> CHALLENGE_BOND \<or> \<not> active (archivers s a)) \<and>
         (val \<noteq> CHALLENGE_BOND \<longrightarrow> createChallenge s sender val a h now = Inl InvalidBond) \<and>
         (val = CHALLENGE_BOND \<and> \<not> active (archivers s a) \<longrightarrow>
            createChallenge s sender val a h now = Inl ArchiverNotActive) \<and>
         (val = CHALLENGE_BOND \<and> active (archivers s a) \<longrightarrow>
            (\<forall>m. \<exists>s'. createChallenge (s\<lparr>blobArchivers := m\<rparr>) sender val a h now =
               Inr (nextChallengeId s, s',
                    [ChallengeCreated (nextChallengeId s) sender a h])))"
  using assms by (simp add: createChallenge_def Let_def)

theorem createChallenge_fails_iff_witness:
  "fits (nextChallengeId s_registered + 1) \<and> fits (100 + CHALLENGE_PERIOD) \<and>
   active (archivers s_registered 5) \<and> 5 \<notin> set (blobArchivers s_registered 99) \<and>
   (\<exists>s'. createChallenge s_registered 7 CHALLENGE_BOND 5 99 100 =
            Inr (0, s', [ChallengeCreated 0 7 5 99])) \<and>
   createChallenge s_registered 7 1 5 99 100 = Inl InvalidBond \<and>
   \<not> active (archivers s_registered 6) \<and>
   createChallenge s_registered 7 CHALLENGE_BOND 6 99 100 = Inl ArchiverNotActive"
  using createChallenge_fails_iff [of s_registered 100 7 CHALLENGE_BOND 5 99]
    createChallenge_fails_iff [of s_registered 100 7 1 5 99]
    createChallenge_fails_iff [of s_registered 100 7 CHALLENGE_BOND 6 99]
  by (simp add: history_defs eval_defs)

section \<open>Topping up after a slash\<close>

text \<open>
  C9, as the claim has it, fails: archiver \<open>5\<close> registers with \<open>MIN_STAKE\<close>, loses a
  challenge, is left with 0.09 ether and is deactivated; it adds 0.1 ether, which
  \<^verbatim>\<open>addStake\<close> accepts, and holds 0.19 ether; its next \<^verbatim>\<open>commitToBlob\<close> still reverts
  with \<open>ArchiverNotActive\<close>.
\<close>

theorem topped_up_commit_counterexample:
  "\<not> active (archivers s_slashed 5) \<and> stake (archivers s_slashed 5) < MIN_STAKE \<and>
   exec s_slashed 4 (AddStake 5 100000000000000000) =
     Inr (s_topped, [StakeAdded 5 100000000000000000 190000000000000000]) \<and>
   MIN_STAKE \<le> stake (archivers s_topped 5) \<and>
   commitToBlob s_topped 5 99 5 = Inl ArchiverNotActive"
  by (simp add: history_defs eval_defs)

text \<open>
  C9, amended. \<^verbatim>\<open>addStake\<close> never writes the \<open>active\<close> flag: when an inactive archiver
  adds stake, whatever the amount, it is still inactive afterwards and its next
  \<^verbatim>\<open>commitToBlob\<close> reverts with \<open>ArchiverNotActive\<close>.
\<close>

theorem addStake_keeps_inactive:
  assumes "\<not> active (archivers s a)"
    and "addStake s a val now = Inr (s', evs)"
  shows "\<not> active (archivers s' a) \<and> commitToBlob s' a h now' = Inl ArchiverNotActive"
proof -
  from assms have "\<not> active (archivers s' a)"
    by (auto simp: addStake_def split: if_splits sum.splits elim!: claim_cases)
  then show ?thesis by (simp add: commitToBlob_def)
qed

theorem addStake_keeps_inactive_witness:
  "\<not> active (archivers s_slashed 5) \<and>
   addStake s_slashed 5 100000000000000000 4 =
     Inr (s_topped, [StakeAdded 5 100000000000000000 190000000000000000]) \<and>
   \<not> active (archivers s_topped 5) \<and> commitToBlob s_topped 5 99 5 = Inl ArchiverNotActive"
proof -
  have i: "\<not> active (archivers s_slashed 5)"
    by (simp add: history_defs eval_defs)
  have h: "addStake s_slashed 5 100000000000000000 4 =
     Inr (s_topped, [StakeAdded 5 100000000000000000 190000000000000000])"
    by (simp add: history_defs eval_defs)
  from i h addStake_keeps_inactive [OF i h, of 99 5] show ?thesis by simp
qed


section \<open>Terminal challenges\<close>

lemma batch_loop_challenges:
  "batch_loop s a hs now = Inr (s', evs) \<Longrightarrow>
     challenges s' = challenges s \<and> nextChallengeId s' = nextChallengeId s"
  by (induction hs arbitrary: s s' evs) (auto split: if_splits sum.splits)

lemma exec_challenges_frame:
  assumes "exec s now c = Inr (s', evs)"
    and "\<And>sender val a h. c \<noteq> CreateChallenge sender val a h"
    and "\<And>sender cid b. c \<noteq> ResolveChallenge sender cid b"
    and "\<And>sender cid. c \<noteq> ResolveExpiredChallenge sender cid"
  shows "challenges s' = challenges s \<and> nextChallengeId s' = nextChallengeId s"
proof (cases c)
  case (Register a v ep)
  with assms(1) show ?thesis by (auto simp: register_def split: if_splits)
next
  case (AddStake a v)
  with assms(1) show ?thesis
    by (auto simp: addStake_def split: if_splits sum.splits elim!: claim_cases)
next
  case (WithdrawStake a v)
  with assms(1) show ?thesis
    by (auto simp: withdrawStake_def Let_def call_value_def split: if_splits sum.splits
        elim!: claim_cases dest!: deactivate_shape(1))
next
  case (Deactivate a)
  with assms(1) show ?thesis
    by (auto simp: deactivate_def split: if_splits dest!: deactivate_shape(1))
next
  case (CommitToBlob a h)
  with assms(1) show ?thesis by (auto simp: commitToBlob_def split: if_splits)
next
  case (BatchCommitToBlobs a hs)
  with assms(1) show ?thesis
    by (auto simp: batchCommitToBlobs_def split: if_splits dest: batch_loop_challenges)
next
  case (FundRewardPool a v)
  with assms(1) show ?thesis
    by (auto simp: fundRewardPool_def split: if_splits sum.splits)
next
  case (ClaimRewards a)
  with assms(1) show ?thesis
    by (auto simp: claimRewards_def elim!: claim_cases)
next
  case (Receive a v)
  with assms(1) show ?thesis
    by (auto simp: receive_def split: if_splits sum.splits)
qed (use assms in auto)

lemma resolveChallenge_challenges:
  assumes "resolveChallenge s sender cid b now = Inr (s', evs)"
  shows "deadline (challenges s cid) \<noteq> 0 \<and> \<not> resolved (challenges s cid) \<and>
         challenges s' = (challenges s)(cid := (challenges s cid)\<lparr>resolved := True, archiverWon := b\<rparr>) \<and>
         nextChallengeId s' = nextChallengeId s"
  using resolveChallenge_shape [OF assms] by simp

lemma resolveExpiredChallenge_challenges:
  assumes "resolveExpiredChallenge s cid now = Inr (s', evs)"
  shows "deadline (challenges s cid) \<noteq> 0 \<and> \<not> resolved (challenges s cid) \<and>
         challenges s' = (challenges s)(cid := (challenges s cid)\<lparr>resolved := True, archiverWon := False\<rparr>) \<and>
         nextChallengeId s' = nextChallengeId s"
  using resolveChallenge_shape [OF resolveExpired_to_resolve [OF assms]] by simp

lemma createChallenge_challenges:
  assumes "createChallenge s sender val a h now = Inr (cid, s', evs)"
  shows "cid = nextChallengeId s \<and> nextChallengeId s' = nextChallengeId s + 1 \<and>
         deadline (challenges s' cid) \<noteq> 0 \<and> \<not> resolved (challenges s' cid) \<and>
         (\<forall>k. k \<noteq> cid \<longrightarrow> challenges s' k = challenges s k)"
  using assms
  by (auto simp: createChallenge_def Let_def CHALLENGE_PERIOD_def split: if_splits)

lemma exec_challenge_inv:
  assumes "challenge_inv s" and "exec s now c = Inr (s', evs)"
  shows "challenge_inv s'"
proof (cases c)
  case (CreateChallenge sender val a h)
  with assms(2) obtain k where "createChallenge s sender val a h now = Inr (k, s', evs)"
    by (auto split: sum.splits)
  from createChallenge_challenges [OF this] assms(1) show ?thesis
    unfolding challenge_inv_def
    by (metis Suc_eq_plus1 Suc_leD not_less_eq_eq)
next
  case (ResolveChallenge sender cid b)
  with assms(2) have "resolveChallenge s sender cid b now = Inr (s', evs)" by simp
  from resolveChallenge_challenges [OF this] assms(1) show ?thesis
    by (auto simp: challenge_inv_def)
next
  case (ResolveExpiredChallenge sender cid)
  with assms(2) have "resolveExpiredChallenge s cid now = Inr (s', evs)" by simp
  from resolveExpiredChallenge_challenges [OF this] assms(1) show ?thesis
    by (auto simp: challenge_inv_def)
qed (use assms exec_challenges_frame [OF assms(2)] in \<open>auto simp: challenge_inv_def\<close>)

lemma exec_keeps_resolved:
  assumes "challenge_inv s" and "resolved (challenges s k)"
    and "exec s now c = Inr (s', evs)"
  shows "challenges s' k = challenges s k"
proof (cases c)
  case (CreateChallenge sender val a h)
  with assms(3) obtain j where j: "createChallenge s sender val a h now = Inr (j, s', evs)"
    by (auto split: sum.splits)
  from assms(1,2) have "k < nextChallengeId s"
    unfolding challenge_inv_def by (meson not_le_imp_less)
  with createChallenge_challenges [OF j] show ?thesis by simp
next
  case (ResolveChallenge sender cid b)
  with assms(3) have "resolveChallenge s sender cid b now = Inr (s', evs)" by simp
  from resolveChallenge_challenges [OF this] assms(2) show ?thesis by auto
next
  case (ResolveExpiredChallenge sender cid)
  with assms(3) have "resolveExpiredChallenge s cid now = Inr (s', evs)" by simp
  from resolveExpiredChallenge_challenges [OF this] assms(2) show ?thesis by auto
qed (use exec_challenges_frame [OF assms(3)] in auto)

lemma init_challenge_inv: "challenge_inv (init d fr)"
  by (simp add: challenge_inv_def init_def zero_challenge_def)

lemma run_challenge_inv: "challenge_inv s \<Longrightarrow> challenge_inv (fst (run s cs))"
  by (rule run_invariant [where P = challenge_inv]) (auto intro: exec_challenge_inv)

lemma run_keeps_resolved:
  assumes "challenge_inv s" and "resolved (challenges s k)"
  shows "challenges (fst (run s cs)) k = challenges s k"
proof -
  have "challenge_inv (fst (run s cs)) \<and> challenges (fst (run s cs)) k = challenges s k"
  proof (rule run_invariant [where P = "\<lambda>t. challenge_inv t \<and> challenges t k = challenges s k"])
    show "challenge_inv s \<and> challenges s k = challenges s k" using assms by simp
  next
    fix t now c t' evs
    assume p: "challenge_inv t \<and> challenges t k = challenges s k"
      and e: "exec t now c = Inr (t', evs)"
    from p have i: "challenge_inv t" and q: "challenges t k = challenges s k" by simp_all
    from q assms(2) have r: "resolved (challenges t k)" by simp
    have "challenges t' k = challenges t k" by (rule exec_keeps_resolved [OF i r e])
    moreover have "challenge_inv t'" by (rule exec_challenge_inv [OF i e])
    ultimately show "challenge_inv t' \<and> challenges t' k = challenges s k"
      using q by simp
  qed
  then show ?thesis by simp
qed

text \<open>
  C6. Take any storage \<open>s\<close> reached from the constructor in which challenge \<open>cid\<close> is
  resolved, and any further history. In the storage \<open>s'\<close> it leads to, the record of the
  challenge is what it was in \<open>s\<close>, field by field, so \<open>resolved\<close> is still set and
  \<open>archiverWon\<close> has not changed; \<^verbatim>\<open>resolveExpiredChallenge\<close> on it reverts with
  \<open>ChallengeAlreadyResolved\<close>, and so does \<^verbatim>\<open>resolveChallenge\<close> from the owner, with
  either verdict (from anyone else it reverts as unauthorised). A revert writes nothing.
\<close>

theorem resolved_challenge_is_terminal:
  assumes "s = fst (run (init d fr) cs)"
    and "resolved (challenges s cid)"
    and "s' = fst (run s cs')"
  shows "challenges s' cid = challenges s cid \<and>
         resolved (challenges s' cid) \<and>
         archiverWon (challenges s' cid) = archiverWon (challenges s cid) \<and>
         resolveChallenge s' (owner s') cid b now = Inl ChallengeAlreadyResolved \<and>
         resolveExpiredChallenge s' cid now = Inl ChallengeAlreadyResolved \<and>
         (\<forall>sender. \<exists>e. resolveChallenge s' sender cid b now = Inl e)"
proof -
  from assms(1) have inv: "challenge_inv s"
    by (simp add: run_challenge_inv init_challenge_inv)
  with assms(3) have inv': "challenge_inv s'" by (simp add: run_challenge_inv)
  from inv assms(2,3) have same: "challenges s' cid = challenges s cid"
    by (simp add: run_keeps_resolved)
  with assms(2) have r: "resolved (challenges s' cid)" by simp
  with inv' have d: "deadline (challenges s' cid) \<noteq> 0" by (simp add: challenge_inv_def)
  from r d same show ?thesis
    by (simp add: resolveChallenge_def resolveExpiredChallenge_def)
qed

theorem resolved_challenge_is_terminal_witness:
  "resolved (challenges s_slashed 0) \<and>
   challenges (fst (run s_slashed later_history)) 0 = challenges s_slashed 0 \<and>
   \<not> archiverWon (challenges (fst (run s_slashed later_history)) 0) \<and>
   resolveChallenge (fst (run s_slashed later_history))
     (owner (fst (run s_slashed later_history))) 0 True 90002 = Inl ChallengeAlreadyResolved \<and>
   resolveExpiredChallenge (fst (run s_slashed later_history)) 0 90002 =
     Inl ChallengeAlreadyResolved"
proof -
  have r: "resolved (challenges s_slashed 0)"
    by (simp add: history_defs eval_defs)
  have w: "\<not> archiverWon (challenges s_slashed 0)"
    by (simp add: history_defs eval_defs)
  from resolved_challenge_is_terminal [OF s_slashed_def r refl, of later_history True 90002] r w
  show ?thesis by simp
qed


section \<open>Conservation of stake\<close>

lemma run_invariant_timed:
  assumes "P s"
    and "\<forall>tc\<in>set cs. 0 < fst tc"
    and "\<And>s now c s' evs. P s \<Longrightarrow> 0 < now \<Longrightarrow> exec s now c = Inr (s', evs) \<Longrightarrow> P s'"
  shows "P (fst (run s cs))"
  using assms(1,2)
proof (induction cs arbitrary: s)
  case Nil
  then show ?case by simp
next
  case (Cons tc cs)
  obtain now c where tc: "tc = (now, c)" by (cases tc)
  with Cons.prems have pos: "0 < now" and rest: "\<forall>tc\<in>set cs. 0 < fst tc" by simp_all
  show ?case
  proof (cases "exec s now c")
    case (Inl e)
    with tc Cons.IH [OF Cons.prems(1) rest] show ?thesis by simp
  next
    case (Inr r)
    obtain s' evs where r: "r = (s', evs)" by (cases r)
    from Inr r Cons.prems(1) pos have "P s'" by (auto intro: assms(3))
    then have "P (fst (run s' cs))" using rest by (rule Cons.IH)
    with tc Inr r show ?thesis by (auto split: prod.splits)
  qed
qed

lemma sum_pointwise_change:
  fixes f g :: "'a::finite \<Rightarrow> nat"
  assumes "\<forall>x. x \<noteq> a \<longrightarrow> g x = f x"
  shows "sum g UNIV + f a = sum f UNIV + g a"
proof -
  have "sum g UNIV = g a + sum g (UNIV - {a})" by (simp add: sum.remove)
  moreover have "sum f UNIV = f a + sum f (UNIV - {a})" by (simp add: sum.remove)
  moreover from assms have "sum g (UNIV - {a}) = sum f (UNIV - {a})"
    by (intro sum.cong) auto
  ultimately show ?thesis by simp
qed

lemma stake_moved_inv:
  assumes "stake_inv s" and "stake_moved s s' a"
  shows "stake_inv s'"
proof -
  from assms(2) have "\<forall>x. x \<noteq> a \<longrightarrow> stake (archivers s' x) = stake (archivers s x)"
    by (simp add: stake_moved_def)
  then have "(\<Sum>x\<in>UNIV. stake (archivers s' x)) + stake (archivers s a) =
             (\<Sum>x\<in>UNIV. stake (archivers s x)) + stake (archivers s' a)"
    by (rule sum_pointwise_change)
  moreover from assms(2) have
    "totalStake s' + stake (archivers s a) = totalStake s + stake (archivers s' a)"
    by (simp add: stake_moved_def)
  moreover from assms(1) have "totalStake s = (\<Sum>x\<in>UNIV. stake (archivers s x))"
    by (simp add: stake_inv_def)
  ultimately have "totalStake s' = (\<Sum>x\<in>UNIV. stake (archivers s' x))" by linarith
  moreover have "registeredAt (archivers s' x) = 0 \<longrightarrow> stake (archivers s' x) = 0" for x
    using assms by (cases "x = a") (auto simp: stake_moved_def stake_inv_def)
  ultimately show ?thesis by (simp add: stake_inv_def)
qed

lemma batch_loop_stake:
  "batch_loop s a hs now = Inr (s', evs) \<Longrightarrow>
     totalStake s' = totalStake s \<and>
     (\<forall>x. stake (archivers s' x) = stake (archivers s x) \<and>
          registeredAt (archivers s' x) = registeredAt (archivers s x))"
proof (induction hs arbitrary: s s' evs)
  case Nil
  then show ?case by simp
next
  case (Cons h hs)
  let ?t = "s\<lparr>blobArchivers := (blobArchivers s)(h := blobArchivers s h @ [a]),
              archivers := (archivers s)
                (a := (archivers s a)\<lparr>blobCount := blobCount (archivers s a) + 1\<rparr>)\<rparr>"
  from Cons.prems obtain evs' where "batch_loop ?t a hs now = Inr (s', evs')"
    by (auto split: if_splits sum.splits)
  from Cons.IH [OF this] show ?case by simp
qed

lemma unchanged_stake_moved:
  assumes "totalStake s' = totalStake s"
    and "\<forall>x. stake (archivers s' x) = stake (archivers s x) \<and>
             registeredAt (archivers s' x) = registeredAt (archivers s x)"
    and "stake_inv s"
  shows "stake_moved s s' a"
  using assms by (simp add: stake_moved_def stake_inv_def)

lemma resolve_stake_moved:
  assumes "stake_inv s" and "resolveChallenge s sender cid b now = Inr (s', evs)"
  shows "stake_moved s s' (archiver (challenges s cid))"
proof (cases b)
  case True
  with resolveChallenge_shape [OF assms(2)] assms(1) show ?thesis
    by (simp add: stake_moved_def stake_inv_def)
next
  case False
  let ?a = "archiver (challenges s cid)"
  let ?k = "(stake (archivers s ?a) * SLASH_PERCENT) div 100"
  from False resolveChallenge_shape [OF assms(2)]
  have k: "?k \<le> stake (archivers s ?a)" "?k \<le> totalStake s"
    and t: "totalStake s' = totalStake s - ?k"
    and a: "archivers s' = (archivers s)
         (?a := (archivers s ?a)
            \<lparr>failedChallenges := failedChallenges (archivers s ?a) + 1,
             stake := stake (archivers s ?a) - ?k,
             active := (if stake (archivers s ?a) - ?k < MIN_STAKE
                        then False else active (archivers s ?a))\<rparr>)"
    by simp_all
  from a have others: "\<forall>x. x \<noteq> ?a \<longrightarrow> stake (archivers s' x) = stake (archivers s x) \<and>
                       registeredAt (archivers s' x) = registeredAt (archivers s x)"
    by simp
  from a have st: "stake (archivers s' ?a) = stake (archivers s ?a) - ?k"
    and reg: "registeredAt (archivers s' ?a) = registeredAt (archivers s ?a)"
    by simp_all
  from k t st have total: "totalStake s' + stake (archivers s ?a) =
      totalStake s + stake (archivers s' ?a)"
    by simp
  from assms(1) reg st have "registeredAt (archivers s' ?a) = 0 \<longrightarrow> stake (archivers s' ?a) = 0"
    by (simp add: stake_inv_def)
  with others total show ?thesis unfolding stake_moved_def by blast
qed

lemma exec_stake_moved:
  assumes "stake_inv s" and "0 < now" and "exec s now c = Inr (s', evs)"
  shows "\<exists>a. stake_moved s s' a"
proof (cases c)
  case (Register a v ep)
  with assms have "stake_moved s s' a"
    by (auto simp: register_def stake_moved_def stake_inv_def split: if_splits)
  then show ?thesis ..
next
  case (AddStake a v)
  with assms have "stake_moved s s' a"
    by (auto simp: addStake_def stake_moved_def split: if_splits sum.splits elim!: claim_cases)
  then show ?thesis ..
next
  case (WithdrawStake a v)
  with assms have "stake_moved s s' a"
    by (auto simp: withdrawStake_def Let_def call_value_def stake_moved_def
        split: if_splits sum.splits elim!: claim_cases dest!: deactivate_shape(1))
  then show ?thesis ..
next
  case (Deactivate a)
  with assms have "stake_moved s s' a"
    by (auto simp: deactivate_def stake_moved_def stake_inv_def split: if_splits
        dest!: deactivate_shape(1))
  then show ?thesis ..
next
  case (CommitToBlob a h)
  with assms have "stake_moved s s' a"
    by (auto simp: commitToBlob_def stake_moved_def stake_inv_def split: if_splits)
  then show ?thesis ..
next
  case (BatchCommitToBlobs a hs)
  with assms have "batch_loop s a hs now = Inr (s', evs)"
    by (auto simp: batchCommitToBlobs_def split: if_splits)
  from batch_loop_stake [OF this] assms(1) have "stake_moved s s' a"
    by (intro unchanged_stake_moved) auto
  then show ?thesis ..
next
  case (CreateChallenge a v b h)
  with assms have "stake_moved s s' a"
    by (auto simp: createChallenge_def Let_def stake_moved_def stake_inv_def
        split: if_splits sum.splits)
  then show ?thesis ..
next
  case (ResolveChallenge a cid b)
  with assms have "resolveChallenge s a cid b now = Inr (s', evs)" by simp
  from resolve_stake_moved [OF assms(1) this] show ?thesis ..
next
  case (ResolveExpiredChallenge a cid)
  with assms have "resolveExpiredChallenge s cid now = Inr (s', evs)" by simp
  from resolve_stake_moved [OF assms(1) resolveExpired_to_resolve [OF this]] show ?thesis ..
next
  case (FundRewardPool a v)
  with assms have "stake_moved s s' a"
    by (auto simp: fundRewardPool_def stake_moved_def stake_inv_def split: if_splits sum.splits)
  then show ?thesis ..
next
  case (ClaimRewards a)
  with assms have "stake_moved s s' a"
    by (auto simp: claimRewards_def stake_moved_def stake_inv_def elim!: claim_cases)
  then show ?thesis ..
next
  case (Receive a v)
  with assms have "stake_moved s s' a"
    by (auto simp: receive_def stake_moved_def stake_inv_def split: if_splits sum.splits)
  then show ?thesis ..
qed

lemma exec_stake_inv:
  assumes "stake_inv s" and "0 < now" and "exec s now c = Inr (s', evs)"
  shows "stake_inv s'"
  using exec_stake_moved [OF assms] stake_moved_inv [OF assms(1)] by blast

lemma init_stake_inv: "stake_inv (init d fr)"
  by (simp add: stake_inv_def init_def zero_archiver_def)

lemma run_stake_inv:
  assumes "stake_inv s" and "\<forall>tc\<in>set cs. 0 < fst tc"
  shows "stake_inv (fst (run s cs))"
  by (rule run_invariant_timed [where P = stake_inv, OF assms]) (rule exec_stake_inv)

section \<open>Rewards paid against rewards funded\<close>

text \<open>
  C3, as the claim has it, fails. Archiver \<open>5\<close> stakes 1 ether and 1 wei is funded, so
  the accumulator is \<open>1\<close>. Archivers \<open>6\<close> and \<open>8\<close> then register with 1.5 ether each:
  their debt is \<open>1.5e18 * 1 / 1e18\<close>, rounded down to 1 wei. 4 more wei are funded over
  the 4 ether staked, the accumulator is \<open>2\<close>, and the three claims pay
  \<open>2 - 0\<close>, \<open>3 - 1\<close> and \<open>3 - 1\<close>: 6 wei paid, 5 wei funded.
\<close>

theorem paid_exceeds_funded_counterexample:
  "total_paid (snd (run (init 1 2) rounding_history)) = 6 \<and>
   total_funded (snd (run (init 1 2) rounding_history)) = 5"
  by (simp add: rounding_history_def eval_defs total_paid_def total_funded_def)

lemma log_append:
  "total_paid (xs @ ys) = total_paid xs + total_paid ys"
  "total_funded (xs @ ys) = total_funded xs + total_funded ys"
  "stake_settings (xs @ ys) = stake_settings xs + stake_settings ys"
  by (simp_all add: total_paid_def total_funded_def stake_settings_def)

lemma E18_pos: "0 < E18"
  by (simp add: E18_def)

lemma owed_after_set:
  assumes "rewardDebt s a = (stake (archivers s a) * accRewardPerStake s) div E18"
  shows "owed s a < E18"
proof -
  have "owed s a = (stake (archivers s a) * accRewardPerStake s) mod E18"
    using assms by (simp add: owed_def minus_mult_div_eq_mod)
  then show ?thesis using E18_pos by simp
qed

lemma owed_touch:
  assumes "accRewardPerStake s' = accRewardPerStake s"
    and "\<forall>x. x \<noteq> a \<longrightarrow> stake (archivers s' x) = stake (archivers s x) \<and>
                       rewardDebt s' x = rewardDebt s x"
    and "E18 * p + owed s' a \<le> owed s a + E18 * k"
  shows "E18 * p + (\<Sum>x\<in>UNIV. owed s' x) \<le> (\<Sum>x\<in>UNIV. owed s x) + E18 * k"
proof -
  from assms(1,2) have "\<forall>x. x \<noteq> a \<longrightarrow> owed s' x = owed s x"
    by (simp add: owed_def)
  then have "(\<Sum>x\<in>UNIV. owed s' x) + owed s a = (\<Sum>x\<in>UNIV. owed s x) + owed s' a"
    by (rule sum_pointwise_change)
  with assms(3) show ?thesis by linarith
qed

lemma owed_claim:
  assumes "claimRewards_internal s a now = Inr (s1, evs)"
  shows "E18 * total_paid evs + owed s1 a = owed s a \<and>
         total_funded evs = 0 \<and> stake_settings evs = 0 \<and>
         accRewardPerStake s1 = accRewardPerStake s \<and>
         (\<forall>x. stake (archivers s1 x) = stake (archivers s x)) \<and>
         (\<forall>x. x \<noteq> a \<longrightarrow> rewardDebt s1 x = rewardDebt s x)"
  using assms
proof (cases rule: claim_cases)
  case noop
  then show ?thesis by (simp add: total_paid_def total_funded_def stake_settings_def)
next
  case (paid p)
  let ?n = "stake (archivers s a) * accRewardPerStake s"
  have "E18 * (?n div E18) \<le> ?n" by simp
  with paid(3) have le: "E18 * rewardDebt s a + E18 * p \<le> ?n"
    by (simp add: distrib_left)
  have o: "owed s a = ?n - E18 * rewardDebt s a" by (simp add: owed_def)
  from paid(5) have o1: "owed s1 a = ?n - (E18 * rewardDebt s a + E18 * p)"
    by (simp add: owed_def distrib_left)
  from le o o1 have "E18 * p + owed s1 a = owed s a" by linarith
  with paid(5,6) show ?thesis
    by (simp add: total_paid_def total_funded_def stake_settings_def)
qed

lemma owed_balance [simp]: "owed (s\<lparr>balance := b\<rparr>) x = owed s x"
  by (simp add: owed_def)

lemma owed_unchanged:
  assumes "accRewardPerStake s' = accRewardPerStake s"
    and "\<forall>x. stake (archivers s' x) = stake (archivers s x)"
    and "rewardDebt s' = rewardDebt s"
  shows "(\<Sum>x\<in>UNIV. owed s' x) = (\<Sum>x\<in>UNIV. owed s x)"
  using assms by (simp add: owed_def)

lemma owed_set_step:
  assumes "accRewardPerStake s' = accRewardPerStake s"
    and "\<forall>x. x \<noteq> a \<longrightarrow> stake (archivers s' x) = stake (archivers s x) \<and>
                       rewardDebt s' x = rewardDebt s x"
    and "rewardDebt s' a = (stake (archivers s' a) * accRewardPerStake s') div E18"
    and "E18 * p \<le> owed s a"
  shows "E18 * p + (\<Sum>x\<in>UNIV. owed s' x) \<le> (\<Sum>x\<in>UNIV. owed s x) + E18 * 1"
proof (rule owed_touch [OF assms(1,2)])
  from owed_after_set [OF assms(3)] assms(4)
  show "E18 * p + owed s' a \<le> owed s a + E18 * 1" by simp
qed

lemma addStake_shape:
  assumes "addStake s a v now = Inr (s', evs)"
  shows "\<exists>s1 ev1. claimRewards_internal (s\<lparr>balance := balance s + v\<rparr>) a now = Inr (s1, ev1) \<and>
           evs = ev1 @ [StakeAdded a v (stake (archivers s1 a) + v)] \<and>
           accRewardPerStake s' = accRewardPerStake s1 \<and>
           (\<forall>x. x \<noteq> a \<longrightarrow> stake (archivers s' x) = stake (archivers s1 x) \<and>
                          rewardDebt s' x = rewardDebt s1 x) \<and>
           rewardDebt s' a = (stake (archivers s' a) * accRewardPerStake s') div E18"
  using assms by (auto simp: addStake_def split: if_splits sum.splits)

lemma withdrawStake_shape:
  assumes "withdrawStake s a amount now = Inr (s', evs)"
  shows "\<exists>s1 ev1 ev2. claimRewards_internal s a now = Inr (s1, ev1) \<and>
           evs = ev1 @ ev2 @ [Transfer a amount,
                              StakeWithdrawn a amount (stake (archivers s a) - amount)] \<and>
           (ev2 = [] \<or> ev2 = [ArchiverDeactivated a now]) \<and>
           accRewardPerStake s' = accRewardPerStake s1 \<and>
           (\<forall>x. x \<noteq> a \<longrightarrow> stake (archivers s' x) = stake (archivers s1 x) \<and>
                          rewardDebt s' x = rewardDebt s1 x) \<and>
           rewardDebt s' a = (stake (archivers s' a) * accRewardPerStake s') div E18"
proof -
  let ?n = "stake (archivers s a) - amount"
  from assms obtain s1 ev1 where c: "claimRewards_internal s a now = Inr (s1, ev1)"
    by (auto simp: withdrawStake_def Let_def split: if_splits sum.splits)
  let ?t = "s1\<lparr>archivers := (archivers s1)(a := (archivers s1 a)\<lparr>stake := ?n\<rparr>),
               totalStake := totalStake s1 - amount,
               rewardDebt := (rewardDebt s1)(a := (?n * accRewardPerStake s1) div E18)\<rparr>"
  from assms c obtain s2 ev2 where
    d: "(if ?n = 0 then deactivateArchiver_internal ?t a now else Inr (?t, [])) = Inr (s2, ev2)"
    and s': "s' = s2\<lparr>balance := balance s2 - amount\<rparr>"
    and e: "evs = ev1 @ ev2 @ [Transfer a amount, StakeWithdrawn a amount ?n]"
    by (auto simp: withdrawStake_def Let_def call_value_def split: if_splits sum.splits)
  have "(ev2 = [] \<or> ev2 = [ArchiverDeactivated a now]) \<and>
        accRewardPerStake s2 = accRewardPerStake s1 \<and>
        (\<forall>x. x \<noteq> a \<longrightarrow> stake (archivers s2 x) = stake (archivers s1 x) \<and>
                       rewardDebt s2 x = rewardDebt s1 x) \<and>
        rewardDebt s2 a = (stake (archivers s2 a) * accRewardPerStake s2) div E18"
  proof (cases "?n = 0")
    case True
    with d have dd: "deactivateArchiver_internal ?t a now = Inr (s2, ev2)" by simp
    from deactivate_shape [OF dd] show ?thesis by auto
  next
    case False
    with d show ?thesis by auto
  qed
  with c s' e show ?thesis by auto
qed

lemma batch_loop_reward:
  "batch_loop s a hs now = Inr (s', evs) \<Longrightarrow>
     accRewardPerStake s' = accRewardPerStake s \<and> rewardDebt s' = rewardDebt s \<and>
     (\<forall>x. stake (archivers s' x) = stake (archivers s x)) \<and>
     total_paid evs = 0 \<and> total_funded evs = 0 \<and> stake_settings evs = 0"
proof (induction hs arbitrary: s s' evs)
  case Nil
  then show ?case by (simp add: total_paid_def total_funded_def stake_settings_def)
next
  case (Cons h hs)
  let ?t = "s\<lparr>blobArchivers := (blobArchivers s)(h := blobArchivers s h @ [a]),
              archivers := (archivers s)
                (a := (archivers s a)\<lparr>blobCount := blobCount (archivers s a) + 1\<rparr>)\<rparr>"
  from Cons.prems obtain evs' where r: "batch_loop ?t a hs now = Inr (s', evs')"
    and e: "evs = BlobCommitted a h now # evs'"
    by (auto split: if_splits sum.splits)
  from Cons.IH [OF r] e show ?case
    by (simp add: total_paid_def total_funded_def stake_settings_def)
qed

lemma fund_owed:
  assumes "stake_inv s"
    and "accRewardPerStake s' =
           (if totalStake s > 0 then accRewardPerStake s + (v * E18) div totalStake s
            else accRewardPerStake s)"
    and "archivers s' = archivers s" and "rewardDebt s' = rewardDebt s"
  shows "(\<Sum>x\<in>UNIV. owed s' x) \<le> (\<Sum>x\<in>UNIV. owed s x) + E18 * v"
proof (cases "totalStake s > 0")
  case False
  with assms have "\<forall>x. owed s' x = owed s x" by (simp add: owed_def)
  then show ?thesis by simp
next
  case True
  let ?d = "(v * E18) div totalStake s"
  from True assms have "owed s' x \<le> owed s x + stake (archivers s x) * ?d" for x
    by (simp add: owed_def distrib_left)
  then have "(\<Sum>x\<in>UNIV. owed s' x) \<le> (\<Sum>x\<in>UNIV. owed s x + stake (archivers s x) * ?d)"
    by (intro sum_mono) simp
  also have "\<dots> = (\<Sum>x\<in>UNIV. owed s x) + (\<Sum>x\<in>UNIV. stake (archivers s x)) * ?d"
    by (simp add: sum.distrib sum_distrib_right)
  also from assms(1) have "(\<Sum>x\<in>UNIV. stake (archivers s x)) = totalStake s"
    by (simp add: stake_inv_def)
  also have "totalStake s * ?d \<le> v * E18" by simp
  finally show ?thesis by (simp add: mult.commute)
qed


lemma resolve_reward_step:
  assumes "resolveChallenge s sender cid b now = Inr (s', evs)"
  shows "(\<Sum>x\<in>UNIV. owed s' x) \<le> (\<Sum>x\<in>UNIV. owed s x) \<and>
         total_paid evs = 0 \<and> total_funded evs = 0 \<and> stake_settings evs = 0"
proof (cases b)
  case True
  with resolveChallenge_shape [OF assms]
  have "(\<Sum>x\<in>UNIV. owed s' x) = (\<Sum>x\<in>UNIV. owed s x)"
    by (intro owed_unchanged) auto
  with True resolveChallenge_shape [OF assms] show ?thesis
    by (simp add: total_paid_def total_funded_def stake_settings_def)
next
  case False
  let ?a = "archiver (challenges s cid)"
  let ?k = "(stake (archivers s ?a) * SLASH_PERCENT) div 100"
  from False resolveChallenge_shape [OF assms]
  have acc: "accRewardPerStake s' = accRewardPerStake s"
    and debt: "rewardDebt s' = rewardDebt s"
    and a: "archivers s' = (archivers s)
         (?a := (archivers s ?a)
            \<lparr>failedChallenges := failedChallenges (archivers s ?a) + 1,
             stake := stake (archivers s ?a) - ?k,
             active := (if stake (archivers s ?a) - ?k < MIN_STAKE
                        then False else active (archivers s ?a))\<rparr>)"
    and e: "evs = Transfer (challenger (challenges s cid)) (?k + CHALLENGE_BOND)
                # (if stake (archivers s ?a) - ?k < MIN_STAKE
                   then [ArchiverDeactivated ?a now] else [])
                @ [ChallengeResolved cid False ?k]"
    by simp_all
  from a have others: "\<forall>x. x \<noteq> ?a \<longrightarrow> stake (archivers s' x) = stake (archivers s x)"
    and st: "stake (archivers s' ?a) = stake (archivers s ?a) - ?k"
    by simp_all
  have "stake (archivers s' ?a) * accRewardPerStake s \<le> stake (archivers s ?a) * accRewardPerStake s"
    unfolding st by (rule mult_le_mono1) simp
  then have "owed s' ?a \<le> owed s ?a"
    unfolding owed_def acc debt by (rule diff_le_mono)
  then have "E18 * 0 + owed s' ?a \<le> owed s ?a + E18 * 0" by simp
  with acc others debt have "E18 * 0 + (\<Sum>x\<in>UNIV. owed s' x) \<le> (\<Sum>x\<in>UNIV. owed s x) + E18 * 0"
    by (intro owed_touch [where a = ?a]) simp_all
  with e show ?thesis
    by (simp add: total_paid_def total_funded_def stake_settings_def)
qed

lemma exec_reward_step:
  assumes "stake_inv s" and "exec s now c = Inr (s', evs)"
  shows "E18 * total_paid evs + (\<Sum>x\<in>UNIV. owed s' x) \<le>
         (\<Sum>x\<in>UNIV. owed s x) + E18 * total_funded evs + E18 * stake_settings evs"
proof (cases c)
  case (Register a v ep)
  with assms(2) have r: "register s a v ep now = Inr (s', evs)" by simp
  then have e: "evs = [ArchiverRegistered a v ep now]"
    and f: "accRewardPerStake s' = accRewardPerStake s"
      "\<forall>x. x \<noteq> a \<longrightarrow> stake (archivers s' x) = stake (archivers s x) \<and>
                       rewardDebt s' x = rewardDebt s x"
      "rewardDebt s' a = (stake (archivers s' a) * accRewardPerStake s') div E18"
    by (auto simp: register_def split: if_splits)
  from owed_set_step [OF f, of 0] e show ?thesis
    by (simp add: total_paid_def total_funded_def stake_settings_def)
next
  case (AddStake a v)
  with assms(2) have "addStake s a v now = Inr (s', evs)" by simp
  from addStake_shape [OF this] obtain s1 ev1 where
    c: "claimRewards_internal (s\<lparr>balance := balance s + v\<rparr>) a now = Inr (s1, ev1)"
    and e: "evs = ev1 @ [StakeAdded a v (stake (archivers s1 a) + v)]"
    and f: "accRewardPerStake s' = accRewardPerStake s1"
      "\<forall>x. x \<noteq> a \<longrightarrow> stake (archivers s' x) = stake (archivers s1 x) \<and>
                       rewardDebt s' x = rewardDebt s1 x"
      "rewardDebt s' a = (stake (archivers s' a) * accRewardPerStake s') div E18"
    by blast
  from owed_claim [OF c] have p: "E18 * total_paid ev1 \<le> owed s a"
    and q: "total_funded ev1 = 0" "stake_settings ev1 = 0"
    and g: "accRewardPerStake s1 = accRewardPerStake s"
      "\<forall>x. stake (archivers s1 x) = stake (archivers s x)"
      "\<forall>x. x \<noteq> a \<longrightarrow> rewardDebt s1 x = rewardDebt s x"
    by simp_all
  from f g have f': "accRewardPerStake s' = accRewardPerStake s"
      "\<forall>x. x \<noteq> a \<longrightarrow> stake (archivers s' x) = stake (archivers s x) \<and>
                       rewardDebt s' x = rewardDebt s x"
    by simp_all
  from owed_set_step [OF f' f(3) p] e q show ?thesis
    by (simp add: log_append) (simp add: total_paid_def total_funded_def stake_settings_def)
next
  case (WithdrawStake a amount)
  with assms(2) have "withdrawStake s a amount now = Inr (s', evs)" by simp
  from withdrawStake_shape [OF this] obtain s1 ev1 ev2 where
    c: "claimRewards_internal s a now = Inr (s1, ev1)"
    and e: "evs = ev1 @ ev2 @ [Transfer a amount,
                              StakeWithdrawn a amount (stake (archivers s a) - amount)]"
    and e2: "ev2 = [] \<or> ev2 = [ArchiverDeactivated a now]"
    and f: "accRewardPerStake s' = accRewardPerStake s1"
      "\<forall>x. x \<noteq> a \<longrightarrow> stake (archivers s' x) = stake (archivers s1 x) \<and>
                       rewardDebt s' x = rewardDebt s1 x"
      "rewardDebt s' a = (stake (archivers s' a) * accRewardPerStake s') div E18"
    by blast
  from owed_claim [OF c] have p: "E18 * total_paid ev1 \<le> owed s a"
    and q: "total_funded ev1 = 0" "stake_settings ev1 = 0"
    and g: "accRewardPerStake s1 = accRewardPerStake s"
      "\<forall>x. stake (archivers s1 x) = stake (archivers s x)"
      "\<forall>x. x \<noteq> a \<longrightarrow> rewardDebt s1 x = rewardDebt s x"
    by simp_all
  from f g have f': "accRewardPerStake s' = accRewardPerStake s"
      "\<forall>x. x \<noteq> a \<longrightarrow> stake (archivers s' x) = stake (archivers s x) \<and>
                       rewardDebt s' x = rewardDebt s x"
    by simp_all
  from e2 have z: "total_paid ev2 = 0" "total_funded ev2 = 0" "stake_settings ev2 = 0"
    by (auto simp: total_paid_def total_funded_def stake_settings_def)
  from owed_set_step [OF f' f(3) p] e q z show ?thesis
    by (simp add: log_append) (simp add: total_paid_def total_funded_def stake_settings_def)
next
  case (Deactivate a)
  with assms(2) have d: "deactivateArchiver_internal s a now = Inr (s', evs)"
    by (auto simp: deactivate_def split: if_splits)
  from deactivate_shape [OF d] have "(\<Sum>x\<in>UNIV. owed s' x) = (\<Sum>x\<in>UNIV. owed s x)"
    by (intro owed_unchanged) auto
  with deactivate_shape(2) [OF d] show ?thesis
    by (simp add: total_paid_def total_funded_def stake_settings_def)
next
  case (CommitToBlob a h)
  with assms(2) have "commitToBlob s a h now = Inr (s', evs)" by simp
  then have e: "evs = [BlobCommitted a h now]"
    and "(\<Sum>x\<in>UNIV. owed s' x) = (\<Sum>x\<in>UNIV. owed s x)"
    by (auto simp: commitToBlob_def split: if_splits intro!: owed_unchanged)
  then show ?thesis
    by (simp add: total_paid_def total_funded_def stake_settings_def)
next
  case (BatchCommitToBlobs a hs)
  with assms(2) have "batch_loop s a hs now = Inr (s', evs)"
    by (auto simp: batchCommitToBlobs_def split: if_splits)
  from batch_loop_reward [OF this] owed_unchanged [of s' s] show ?thesis by simp
next
  case (CreateChallenge a v b h)
  with assms(2) obtain k where "createChallenge s a v b h now = Inr (k, s', evs)"
    by (auto split: sum.splits)
  then have e: "evs = [ChallengeCreated k a b h]"
    and "(\<Sum>x\<in>UNIV. owed s' x) = (\<Sum>x\<in>UNIV. owed s x)"
    by (auto simp: createChallenge_def Let_def split: if_splits intro!: owed_unchanged)
  then show ?thesis
    by (simp add: total_paid_def total_funded_def stake_settings_def)
next
  case (ResolveChallenge a cid b)
  with assms(2) have "resolveChallenge s a cid b now = Inr (s', evs)" by simp
  from resolve_reward_step [OF this] show ?thesis by simp
next
  case (ResolveExpiredChallenge a cid)
  with assms(2) have "resolveExpiredChallenge s cid now = Inr (s', evs)" by simp
  from resolve_reward_step [OF resolveExpired_to_resolve [OF this]] show ?thesis by simp
next
  case (FundRewardPool a v)
  with assms(2) have "fundRewardPool s a v = Inr (s', evs)" by simp
  then have e: "evs = [RewardPoolFunded a v]"
    and f: "accRewardPerStake s' =
           (if totalStake s > 0 then accRewardPerStake s + (v * E18) div totalStake s
            else accRewardPerStake s)"
      "archivers s' = archivers s" "rewardDebt s' = rewardDebt s"
    by (auto simp: fundRewardPool_def split: if_splits sum.splits)
  from fund_owed [OF assms(1) f] e show ?thesis
    by (simp add: total_paid_def total_funded_def stake_settings_def)
next
  case (ClaimRewards a)
  with assms(2) have c: "claimRewards_internal s a now = Inr (s', evs)"
    by (simp add: claimRewards_def)
  from owed_claim [OF c] have p: "E18 * total_paid evs + owed s' a \<le> owed s a + E18 * 0"
    and q: "total_funded evs = 0" "stake_settings evs = 0"
    and g: "accRewardPerStake s' = accRewardPerStake s"
      "\<forall>x. x \<noteq> a \<longrightarrow> stake (archivers s' x) = stake (archivers s x) \<and>
                       rewardDebt s' x = rewardDebt s x"
    by simp_all
  from owed_touch [OF g p] q show ?thesis by simp
next
  case (Receive a v)
  with assms(2) have "receive s a v = Inr (s', evs)" by simp
  then have e: "evs = [RewardPoolFunded a v]"
    and f: "accRewardPerStake s' =
           (if totalStake s > 0 then accRewardPerStake s + (v * E18) div totalStake s
            else accRewardPerStake s)"
      "archivers s' = archivers s" "rewardDebt s' = rewardDebt s"
    by (auto simp: receive_def split: if_splits sum.splits)
  from fund_owed [OF assms(1) f] e show ?thesis
    by (simp add: total_paid_def total_funded_def stake_settings_def)
qed


lemma run_reward_bound:
  assumes "stake_inv s" and "\<forall>tc\<in>set cs. 0 < fst tc"
  shows "E18 * total_paid (snd (run s cs)) + (\<Sum>x\<in>UNIV. owed (fst (run s cs)) x) \<le>
         (\<Sum>x\<in>UNIV. owed s x) + E18 * total_funded (snd (run s cs))
           + E18 * stake_settings (snd (run s cs))"
  using assms
proof (induction cs arbitrary: s)
  case Nil
  then show ?case by (simp add: total_paid_def total_funded_def stake_settings_def)
next
  case (Cons tc cs)
  obtain now c where tc: "tc = (now, c)" by (cases tc)
  with Cons.prems have pos: "0 < now" and rest: "\<forall>tc\<in>set cs. 0 < fst tc" by simp_all
  show ?case
  proof (cases "exec s now c")
    case (Inl e)
    with tc Cons.IH [OF Cons.prems(1) rest] show ?thesis by simp
  next
    case (Inr r)
    obtain s' evs where r: "r = (s', evs)" by (cases r)
    with Inr have ex: "exec s now c = Inr (s', evs)" by simp
    obtain s'' evs' where rr: "run s' cs = (s'', evs')" by (cases "run s' cs")
    from ex tc rr have whole: "run s (tc # cs) = (s'', evs @ evs')" by simp
    have inv': "stake_inv s'" by (rule exec_stake_inv [OF Cons.prems(1) pos ex])
    from Cons.IH [OF inv' rest] rr
    have ih: "E18 * total_paid evs' + (\<Sum>x\<in>UNIV. owed s'' x) \<le>
         (\<Sum>x\<in>UNIV. owed s' x) + E18 * total_funded evs' + E18 * stake_settings evs'"
      by simp
    from exec_reward_step [OF Cons.prems(1) ex]
    have st: "E18 * total_paid evs + (\<Sum>x\<in>UNIV. owed s' x) \<le>
         (\<Sum>x\<in>UNIV. owed s x) + E18 * total_funded evs + E18 * stake_settings evs" .
    from ih st have "E18 * (total_paid evs + total_paid evs') + (\<Sum>x\<in>UNIV. owed s'' x) \<le>
         (\<Sum>x\<in>UNIV. owed s x) + E18 * (total_funded evs + total_funded evs')
           + E18 * (stake_settings evs + stake_settings evs')"
      by (simp add: distrib_left)
    then show ?thesis unfolding whole by (simp add: log_append)
  qed
qed

section \<open>Settlement before a change of stake\<close>

text \<open>
  C1 holds for \<^verbatim>\<open>addStake\<close> and \<^verbatim>\<open>withdrawStake\<close>, which call \<^verbatim>\<open>_claimRewards\<close> first,
  and fails for the two functions that slash. Archiver \<open>5\<close> stakes 1 ether, 1 ether is
  funded, archiver \<open>6\<close> stakes 1 ether, and both are challenged. Before any verdict,
  archiver \<open>5\<close> has 1 ether of rewards pending. \<^verbatim>\<open>resolveChallenge(0, false)\<close> takes 0.1
  ether of its stake, pays it no reward and leaves its \<open>rewardDebt\<close> as it was, so that
  only 0.9 ether are pending afterwards. \<^verbatim>\<open>resolveExpiredChallenge(1)\<close> does the same to
  archiver \<open>6\<close>, whose \<open>rewardDebt\<close> of 1 ether is now above \<open>stake * accRewardPerStake /
  1e18\<close>: from then on its \<^verbatim>\<open>claimRewards\<close>, \<^verbatim>\<open>withdrawStake\<close> and \<^verbatim>\<open>addStake\<close> revert
  with an arithmetic panic.
\<close>

theorem slash_skips_settlement:
  "pendingRewards s_unsettled 5 = Inr 1000000000000000000 \<and>
   exec s_unsettled 6 (ResolveChallenge 1 0 False) =
     Inr (s_slashed_by_verdict,
          [Transfer 7 110000000000000000, ChallengeResolved 0 False 100000000000000000]) \<and>
   stake (archivers s_unsettled 5) = 1000000000000000000 \<and>
   stake (archivers s_slashed_by_verdict 5) = 900000000000000000 \<and>
   rewardDebt s_slashed_by_verdict 5 = rewardDebt s_unsettled 5 \<and>
   pendingRewards s_slashed_by_verdict 5 = Inr 900000000000000000 \<and>
   exec s_unsettled 90000 (ResolveExpiredChallenge 7 1) =
     Inr (s_slashed_by_expiry,
          [Transfer 7 110000000000000000, ChallengeResolved 1 False 100000000000000000]) \<and>
   stake (archivers s_slashed_by_expiry 6) = 900000000000000000 \<and>
   rewardDebt s_slashed_by_expiry 6 = 1000000000000000000 \<and>
   claimRewards s_slashed_by_expiry 6 90001 = Inl Panic \<and>
   withdrawStake s_slashed_by_expiry 6 900000000000000000 90001 = Inl Panic \<and>
   addStake s_slashed_by_expiry 6 1 90001 = Inl Panic"
  by (simp add: unsettled_history_def s_unsettled_def s_slashed_by_verdict_def
      s_slashed_by_expiry_def eval_defs pendingRewards_def)




section \<open>Recipients that make no call\<close>

text \<open>
  When every recipient accepts the ether and makes no call, the functions with a handler
  are the functions without one.
\<close>

lemma call_value_cb_idle:
  "call_value_cb (\<lambda>e a t. Some (t, [])) entered s recipient amount =
     (case call_value s recipient amount of Inl e \<Rightarrow> Inl e | Inr s' \<Rightarrow> Inr (s', []))"
  by (simp add: call_value_cb_def call_value_def)

lemma claimRewards_internal_cb_idle:
  "claimRewards_internal_cb (\<lambda>e a t. Some (t, [])) entered s a now =
     claimRewards_internal s a now"
  by (simp add: claimRewards_internal_cb_def claimRewards_internal_def call_value_cb_idle
      Let_def split: sum.splits)

lemma addStake_cb_idle:
  "addStake_cb (\<lambda>e a t. Some (t, [])) False s a val now = addStake s a val now"
  by (simp add: addStake_cb_def addStake_def claimRewards_internal_cb_idle)

lemma withdrawStake_cb_idle:
  "withdrawStake_cb (\<lambda>e a t. Some (t, [])) False s a amount now = withdrawStake s a amount now"
  by (simp add: withdrawStake_cb_def withdrawStake_def claimRewards_internal_cb_idle
      call_value_cb_idle Let_def split: sum.splits prod.splits)

lemma claimRewards_cb_idle:
  "claimRewards_cb (\<lambda>e a t. Some (t, [])) False s a now = claimRewards s a now"
  by (simp add: claimRewards_cb_def claimRewards_def claimRewards_internal_cb_idle)

lemma resolveChallenge_cb_idle:
  "resolveChallenge_cb (\<lambda>e a t. Some (t, [])) entered s sender cid b now =
     resolveChallenge s sender cid b now"
  by (simp add: resolveChallenge_cb_def resolveChallenge_def call_value_cb_idle Let_def
      split: sum.splits prod.splits)

lemma resolveExpiredChallenge_cb_idle:
  "resolveExpiredChallenge_cb (\<lambda>e a t. Some (t, [])) entered s cid now =
     resolveExpiredChallenge s cid now"
  by (simp add: resolveExpiredChallenge_cb_def resolveExpiredChallenge_def call_value_cb_idle
      Let_def split: sum.splits prod.splits)

lemma exec_cb_idle:
  "exec_cb (\<lambda>e a t. Some (t, [])) False s now c = exec s now c"
  by (cases c)
     (simp_all add: register_cb_def addStake_cb_idle withdrawStake_cb_idle claimRewards_cb_idle
        resolveChallenge_cb_idle resolveExpiredChallenge_cb_idle)

lemma react_idle:
  assumes "\<forall>a. env a = Accept []"
  shows "react n env now = (\<lambda>e a t. Some (t, []))"
  using assms by (cases n) (simp_all add: fun_eq_iff)

lemma run_cb_idle:
  assumes "\<forall>a. env a = Accept []"
  shows "run_cb n env s cs = run s cs"
proof (induction cs arbitrary: s)
  case Nil
  show ?case by simp
next
  case (Cons tc cs)
  obtain now c where tc: "tc = (now, c)" by (cases tc)
  show ?case
    unfolding tc by (simp add: react_idle [OF assms] exec_cb_idle Cons.IH split: sum.splits)
qed



section \<open>Recipients that reject or make no call\<close>

lemma call_value_cb_quiet:
  assumes "\<forall>e a t. k e a t = None \<or> k e a t = Some (t, [])"
    and "call_value_cb k entered s recipient amount = Inr (s', evs)"
  shows "call_value s recipient amount = Inr s' \<and> evs = []"
proof (cases "balance s < amount")
  case True
  with assms(2) show ?thesis by (simp add: call_value_cb_def)
next
  case False
  from assms(1) have "k entered recipient (s\<lparr>balance := balance s - amount\<rparr>) = None \<or>
      k entered recipient (s\<lparr>balance := balance s - amount\<rparr>)
        = Some (s\<lparr>balance := balance s - amount\<rparr>, [])"
    by blast
  with False assms(2) show ?thesis
    by (auto simp: call_value_cb_def call_value_def)
qed

lemma claimRewards_internal_cb_quiet:
  assumes "\<forall>e a t. k e a t = None \<or> k e a t = Some (t, [])"
    and "claimRewards_internal_cb k entered s a now = Inr r"
  shows "claimRewards_internal s a now = Inr r"
  using assms(2)
  by (auto simp: claimRewards_internal_cb_def claimRewards_internal_def Let_def
      split: if_splits sum.splits dest!: call_value_cb_quiet [OF assms(1)])

lemma addStake_cb_quiet:
  assumes "\<forall>e a t. k e a t = None \<or> k e a t = Some (t, [])"
    and "addStake_cb k entered s a val now = Inr r"
  shows "addStake s a val now = Inr r"
  using assms(2)
  by (auto simp: addStake_cb_def addStake_def
      split: if_splits sum.splits dest!: claimRewards_internal_cb_quiet [OF assms(1)])

lemma claimRewards_cb_quiet:
  assumes "\<forall>e a t. k e a t = None \<or> k e a t = Some (t, [])"
    and "claimRewards_cb k entered s a now = Inr r"
  shows "claimRewards s a now = Inr r"
  using assms(2)
  by (auto simp: claimRewards_cb_def claimRewards_def
      split: if_splits dest!: claimRewards_internal_cb_quiet [OF assms(1)])




lemma withdrawStake_cb_quiet:
  assumes "\<forall>e a t. k e a t = None \<or> k e a t = Some (t, [])"
    and "withdrawStake_cb k entered s a amount now = Inr r"
  shows "withdrawStake s a amount now = Inr r"
  using assms(2)
  by (auto simp: withdrawStake_cb_def withdrawStake_def Let_def
      split: if_splits sum.splits
      dest!: claimRewards_internal_cb_quiet [OF assms(1)] call_value_cb_quiet [OF assms(1)])

lemma resolveChallenge_cb_quiet:
  assumes "\<forall>e a t. k e a t = None \<or> k e a t = Some (t, [])"
    and "resolveChallenge_cb k entered s sender cid b now = Inr r"
  shows "resolveChallenge s sender cid b now = Inr r"
  using assms(2)
  by (auto simp: resolveChallenge_cb_def resolveChallenge_def Let_def
      split: if_splits sum.splits
      dest!: call_value_cb_quiet [OF assms(1)])

lemma resolveExpiredChallenge_cb_quiet:
  assumes "\<forall>e a t. k e a t = None \<or> k e a t = Some (t, [])"
    and "resolveExpiredChallenge_cb k entered s cid now = Inr r"
  shows "resolveExpiredChallenge s cid now = Inr r"
  using assms(2)
  by (auto simp: resolveExpiredChallenge_cb_def resolveExpiredChallenge_def Let_def
      split: if_splits sum.splits
      dest!: call_value_cb_quiet [OF assms(1)])


lemma react_Suc_applied:
  "react (Suc n) env now entered a s =
     (case env a of
        Reject \<Rightarrow> None
      | Accept cs \<Rightarrow>
          Some (run_calls (\<lambda>t c. exec_cb (react n env now) entered t now c) s
                  (filter (\<lambda>c. sender_of c = a) cs)))"
  by simp

lemma react_numeral_applied:
  "react (numeral k) env now entered a s =
     (case env a of
        Reject \<Rightarrow> None
      | Accept cs \<Rightarrow>
          Some (run_calls (\<lambda>t c. exec_cb (react (pred_numeral k) env now) entered t now c) s
                  (filter (\<lambda>c. sender_of c = a) cs)))"
  by (simp add: numeral_eq_Suc)

lemmas eval_cb_defs = call_value_cb_def claimRewards_internal_cb_def register_cb_def
  addStake_cb_def withdrawStake_cb_def claimRewards_cb_def resolveChallenge_cb_def
  resolveExpiredChallenge_cb_def react_Suc_applied react_numeral_applied reentering_def reentrant_history_def
  s_reentered_def


lemma exec_cb_quiet:
  assumes "\<forall>e a t. k e a t = None \<or> k e a t = Some (t, [])"
    and "exec_cb k False s now c = Inr r"
  shows "exec s now c = Inr r"
proof (cases c)
  case (AddStake a v)
  with assms(2) show ?thesis by (simp add: addStake_cb_quiet [OF assms(1)])
next
  case (WithdrawStake a v)
  with assms(2) show ?thesis by (simp add: withdrawStake_cb_quiet [OF assms(1)])
next
  case (ResolveChallenge a cid b)
  with assms(2) show ?thesis by (simp add: resolveChallenge_cb_quiet [OF assms(1)])
next
  case (ResolveExpiredChallenge a cid)
  with assms(2) show ?thesis by (simp add: resolveExpiredChallenge_cb_quiet [OF assms(1)])
next
  case (ClaimRewards a)
  with assms(2) show ?thesis by (simp add: claimRewards_cb_quiet [OF assms(1)])
qed (use assms(2) in \<open>simp_all add: register_cb_def\<close>)

lemma react_quiet:
  assumes "\<forall>a. env a = Reject \<or> env a = Accept []"
  shows "react n env now e a t = None \<or> react n env now e a t = Some (t, [])"
proof -
  from assms have "env a = Reject \<or> env a = Accept []" by blast
  then show ?thesis by (cases n) auto
qed

lemma run_cb_invariant_timed:
  assumes "P s"
    and "\<forall>tc\<in>set cs. 0 < fst tc"
    and "\<forall>a. env a = Reject \<or> env a = Accept []"
    and "\<And>s now c s' evs. P s \<Longrightarrow> 0 < now \<Longrightarrow> exec s now c = Inr (s', evs) \<Longrightarrow> P s'"
  shows "P (fst (run_cb depth env s cs))"
  using assms(1,2)
proof (induction cs arbitrary: s)
  case Nil
  then show ?case by simp
next
  case (Cons tc cs)
  obtain now c where tc: "tc = (now, c)" by (cases tc)
  with Cons.prems have pos: "0 < now" and rest: "\<forall>tc\<in>set cs. 0 < fst tc" by simp_all
  have q: "\<forall>e a t. react depth env now e a t = None \<or> react depth env now e a t = Some (t, [])"
    using react_quiet [OF assms(3)] by blast
  show ?case
  proof (cases "exec_cb (react depth env now) False s now c")
    case (Inl e)
    with tc Cons.IH [OF Cons.prems(1) rest] show ?thesis by simp
  next
    case (Inr r)
    obtain s' evs where r: "r = (s', evs)" by (cases r)
    from exec_cb_quiet [OF q Inr] r have "exec s now c = Inr (s', evs)" by simp
    with Cons.prems(1) pos have "P s'" by (rule assms(4))
    then have "P (fst (run_cb depth env s' cs))" using rest by (rule Cons.IH)
    with tc Inr r show ?thesis by (auto split: prod.splits)
  qed
qed

lemma run_cb_reward_bound:
  assumes "stake_inv s" and "\<forall>tc\<in>set cs. 0 < fst tc"
    and "\<forall>a. env a = Reject \<or> env a = Accept []"
  shows "E18 * total_paid (snd (run_cb depth env s cs))
           + (\<Sum>x\<in>UNIV. owed (fst (run_cb depth env s cs)) x) \<le>
         (\<Sum>x\<in>UNIV. owed s x) + E18 * total_funded (snd (run_cb depth env s cs))
           + E18 * stake_settings (snd (run_cb depth env s cs))"
  using assms(1,2)
proof (induction cs arbitrary: s)
  case Nil
  then show ?case by (simp add: total_paid_def total_funded_def stake_settings_def)
next
  case (Cons tc cs)
  obtain now c where tc: "tc = (now, c)" by (cases tc)
  with Cons.prems have pos: "0 < now" and rest: "\<forall>tc\<in>set cs. 0 < fst tc" by simp_all
  have q: "\<forall>e a t. react depth env now e a t = None \<or> react depth env now e a t = Some (t, [])"
    using react_quiet [OF assms(3)] by blast
  show ?case
  proof (cases "exec_cb (react depth env now) False s now c")
    case (Inl e)
    with tc Cons.IH [OF Cons.prems(1) rest] show ?thesis by simp
  next
    case (Inr r)
    obtain s' evs where r: "r = (s', evs)" by (cases r)
    from exec_cb_quiet [OF q Inr] r have ex: "exec s now c = Inr (s', evs)" by simp
    obtain s'' evs' where rr: "run_cb depth env s' cs = (s'', evs')"
      by (cases "run_cb depth env s' cs")
    from Inr r tc rr have whole: "run_cb depth env s (tc # cs) = (s'', evs @ evs')" by simp
    have inv': "stake_inv s'" by (rule exec_stake_inv [OF Cons.prems(1) pos ex])
    from Cons.IH [OF inv' rest] rr
    have ih: "E18 * total_paid evs' + (\<Sum>x\<in>UNIV. owed s'' x) \<le>
         (\<Sum>x\<in>UNIV. owed s' x) + E18 * total_funded evs' + E18 * stake_settings evs'"
      by simp
    from exec_reward_step [OF Cons.prems(1) ex]
    have st: "E18 * total_paid evs + (\<Sum>x\<in>UNIV. owed s' x) \<le>
         (\<Sum>x\<in>UNIV. owed s x) + E18 * total_funded evs + E18 * stake_settings evs" .
    from ih st have "E18 * (total_paid evs + total_paid evs') + (\<Sum>x\<in>UNIV. owed s'' x) \<le>
         (\<Sum>x\<in>UNIV. owed s x) + E18 * (total_funded evs + total_funded evs')
           + E18 * (stake_settings evs + stake_settings evs')"
      by (simp add: distrib_left)
    then show ?thesis unfolding whole by (simp add: log_append)
  qed
qed

section \<open>Conservation of stake, and the recipient that breaks it\<close>

text \<open>
  As long as no recipient of ether calls the contract again, \<open>totalStake\<close> is the sum of
  the \<open>stake\<close> fields of all archiver records ever created, which are the addresses whose
  \<open>registeredAt\<close> is set, after any history from the constructor in blocks whose
  timestamp is not zero (the contract reads \<^verbatim>\<open>registeredAt == 0\<close> as "no record").
\<close>

theorem stake_conserved_without_callbacks:
  assumes "\<forall>tc\<in>set cs. 0 < fst tc"
    and "\<forall>a. env a = Reject \<or> env a = Accept []"
    and "s = fst (run_cb depth env (init d fr) cs)"
  shows "totalStake s = (\<Sum>a | registeredAt (archivers s a) \<noteq> 0. stake (archivers s a)) \<and>
         totalStake s = (\<Sum>a\<in>UNIV. stake (archivers s a))"
proof -
  have "stake_inv (fst (run_cb depth env (init d fr) cs))"
    by (rule run_cb_invariant_timed [where P = stake_inv, OF init_stake_inv assms(1,2)])
       (rule exec_stake_inv)
  with assms(3) have inv: "stake_inv s" by simp
  then have all: "totalStake s = (\<Sum>a\<in>UNIV. stake (archivers s a))"
    by (simp add: stake_inv_def)
  have "(\<Sum>a | registeredAt (archivers s a) \<noteq> 0. stake (archivers s a)) =
        (\<Sum>a\<in>UNIV. stake (archivers s a))"
    using inv by (intro sum.mono_neutral_left) (auto simp: stake_inv_def)
  with all show ?thesis by simp
qed

lemma s_reentered_stakes:
  "stake (archivers s_reentered x) = (if x = 5 \<or> x = 6 then 1000000000000000000 else 0)"
  by (simp add: eval_cb_defs eval_defs del: react.simps)

lemma s_reentered_sum:
  "(\<Sum>a\<in>UNIV. stake (archivers s_reentered a)) = 2000000000000000000"
proof -
  have "(\<Sum>a\<in>UNIV. stake (archivers s_reentered a)) =
        (\<Sum>a\<in>{5, 6}. stake (archivers s_reentered a))"
    by (rule sum.mono_neutral_right) (auto simp: s_reentered_stakes)
  also have "\<dots> = 2000000000000000000"
    by (simp add: s_reentered_stakes)
  finally show ?thesis .
qed

text \<open>
  C2 fails on the contract. \<^verbatim>\<open>withdrawStake\<close> keeps \<open>newStake\<close> in a local variable,
  sends the pending reward, and only then writes the local to storage;
  \<^verbatim>\<open>resolveExpiredChallenge\<close> carries no \<^verbatim>\<open>nonReentrant\<close>. Archiver \<open>5\<close>, a contract,
  stakes 1 ether, 1 ether is funded, archiver \<open>6\<close> stakes 1 ether, and \<open>5\<close> is challenged.
  After the deadline \<open>5\<close> calls \<^verbatim>\<open>withdrawStake(0)\<close>. While it is sent its reward it calls
  \<^verbatim>\<open>resolveExpiredChallenge(0)\<close>, which takes 0.1 ether from its stake and from
  \<open>totalStake\<close> and pays the challenger; \<^verbatim>\<open>withdrawStake\<close> then writes the stake of 1
  ether back. The challenge is resolved against \<open>5\<close>, \<open>totalStake\<close> is 1.9 ether, the
  stakes are 1 ether each and sum to 2 ether, and the contract holds 1.9 ether. The same
  history with an externally owned account in place of \<open>5\<close> leaves \<open>totalStake\<close> at 2
  ether.
\<close>

theorem reentrant_withdrawal_breaks_conservation:
  "totalStake s_reentered = 1900000000000000000 \<and>
   stake (archivers s_reentered 5) = 1000000000000000000 \<and>
   stake (archivers s_reentered 6) = 1000000000000000000 \<and>
   (\<Sum>a\<in>UNIV. stake (archivers s_reentered a)) = 2000000000000000000 \<and>
   resolved (challenges s_reentered 0) \<and>
   failedChallenges (archivers s_reentered 5) = 1 \<and>
   balance s_reentered = 1900000000000000000 \<and>
   totalStake (fst (run (init 1 2) reentrant_history)) = 2000000000000000000"
proof -
  have "totalStake s_reentered = 1900000000000000000"
    "resolved (challenges s_reentered 0)"
    "failedChallenges (archivers s_reentered 5) = 1"
    "balance s_reentered = 1900000000000000000"
    by (simp_all add: eval_cb_defs eval_defs del: react.simps)
  moreover have "totalStake (fst (run (init 1 2) reentrant_history)) = 2000000000000000000"
    by (simp add: reentrant_history_def eval_defs)
  moreover have "stake (archivers s_reentered 5) = 1000000000000000000"
    "stake (archivers s_reentered 6) = 1000000000000000000"
    by (simp_all add: s_reentered_stakes)
  moreover note s_reentered_sum
  ultimately show ?thesis by blast
qed

section \<open>The bound on rewards paid\<close>

text \<open>
  C3, amended. Start from the storage the constructor leaves and run any history of calls
  in blocks whose timestamp is not zero, with recipients of ether that reject it or
  accept it without calling the contract again. The wei paid out by reward settlement
  (\<open>RewardsClaimed\<close>) never exceed the wei funded (\<open>RewardPoolFunded\<close>, from
  \<^verbatim>\<open>fundRewardPool\<close> or a plain transfer) by more than one wei for each successful
  \<^verbatim>\<open>register\<close>, \<^verbatim>\<open>addStake\<close> and \<^verbatim>\<open>withdrawStake\<close>: each of these sets \<open>rewardDebt\<close> to
  \<open>stake * accRewardPerStake / 1e18\<close> rounded down, which leaves the archiver a fraction of
  a wei ahead; every other rounding stays in the pool. Nothing is said of histories in
  which a recipient calls the contract again.
\<close>

theorem paid_within_funded_plus_roundings:
  assumes "\<forall>tc\<in>set cs. 0 < fst tc"
    and "\<forall>a. env a = Reject \<or> env a = Accept []"
    and "evs = snd (run_cb depth env (init d fr) cs)"
  shows "total_paid evs \<le> total_funded evs + stake_settings evs"
proof -
  have z: "(\<Sum>x\<in>UNIV. owed (init d fr) x) = 0"
    by (simp add: owed_def init_def zero_archiver_def)
  from run_cb_reward_bound [OF init_stake_inv [of d fr] assms(1,2), of depth] z assms(3)
  have "E18 * total_paid evs \<le> E18 * total_funded evs + E18 * stake_settings evs"
    by simp
  then have "E18 * total_paid evs \<le> E18 * (total_funded evs + stake_settings evs)"
    by (simp add: distrib_left)
  with E18_pos show ?thesis by simp
qed

theorem paid_within_funded_plus_roundings_witness:
  "map fst rounding_history = [1, 2, 3, 4, 5, 6, 7, 8] \<and>
   total_paid (snd (run_cb 1024 (\<lambda>a. Accept []) (init 1 2) rounding_history)) = 6 \<and>
   total_funded (snd (run_cb 1024 (\<lambda>a. Accept []) (init 1 2) rounding_history)) = 5 \<and>
   stake_settings (snd (run_cb 1024 (\<lambda>a. Accept []) (init 1 2) rounding_history)) = 3 \<and>
   total_paid (snd (run_cb 1024 (\<lambda>a. Accept []) (init 1 2) rounding_history))
     \<le> total_funded (snd (run_cb 1024 (\<lambda>a. Accept []) (init 1 2) rounding_history))
       + stake_settings (snd (run_cb 1024 (\<lambda>a. Accept []) (init 1 2) rounding_history))"
proof -
  have p: "\<forall>tc\<in>set rounding_history. 0 < fst tc"
    by (simp add: rounding_history_def)
  have q: "\<forall>a. (\<lambda>a. Accept []) a = Reject \<or> (\<lambda>a. Accept []) a = Accept []"
    by simp
  have r: "run_cb 1024 (\<lambda>a. Accept []) (init 1 2) rounding_history =
           run (init 1 2) rounding_history"
    by (rule run_cb_idle) simp
  have v: "total_paid (snd (run (init 1 2) rounding_history)) = 6"
    "total_funded (snd (run (init 1 2) rounding_history)) = 5"
    "stake_settings (snd (run (init 1 2) rounding_history)) = 3"
    by (simp_all add: rounding_history_def eval_defs total_paid_def total_funded_def
        stake_settings_def)
  have m: "map fst rounding_history = [1, 2, 3, 4, 5, 6, 7, 8]"
    by (simp add: rounding_history_def)
  from paid_within_funded_plus_roundings [OF p q refl, of 1024 1 2] m v r show ?thesis
    by simp
qed

end
